theory Spec2Isabelle
  imports Complex_Main "HOL-Library.Char_ord" "HOL-Library.List_Lexorder"
begin

section \<open>JavaScript numbers\<close>

text \<open>
  The rendering module \<^verbatim>\<open>src/cleanup.ts\<close> computes with JavaScript numbers. A number
  is modelled as an exact rational or one of the three special values the code can
  produce: \<open>Infinity\<close>, \<open>-Infinity\<close> (for instance \<open>Math.max()\<close> of no arguments,
  or \<open>1000 / 0\<close>) and \<open>NaN\<close> (for instance \<open>0 / 0\<close>, or \<open>parseFloat\<close> of a text
  that is no number). The rounding of IEEE doubles and the sign of zero are not modelled:
  arithmetic on finite values is exact. Limits of the engine (the number of arguments a
  spread call such as \<open>Math.max(...xs)\<close> accepts) are not modelled either.
\<close>

datatype jsnum = Fin rat | PInf | NInf | NaN

fun js_add :: "jsnum \<Rightarrow> jsnum \<Rightarrow> jsnum" where
  "js_add (Fin a) (Fin b) = Fin (a + b)"
| "js_add NaN _ = NaN"
| "js_add _ NaN = NaN"
| "js_add PInf NInf = NaN"
| "js_add NInf PInf = NaN"
| "js_add PInf _ = PInf"
| "js_add _ PInf = PInf"
| "js_add NInf _ = NInf"
| "js_add _ NInf = NInf"

fun js_neg :: "jsnum \<Rightarrow> jsnum" where
  "js_neg (Fin a) = Fin (- a)"
| "js_neg PInf = NInf"
| "js_neg NInf = PInf"
| "js_neg NaN = NaN"

definition js_sub :: "jsnum \<Rightarrow> jsnum \<Rightarrow> jsnum" where
  "js_sub a b = js_add a (js_neg b)"

fun js_mul :: "jsnum \<Rightarrow> jsnum \<Rightarrow> jsnum" where
  "js_mul (Fin a) (Fin b) = Fin (a * b)"
| "js_mul NaN _ = NaN"
| "js_mul _ NaN = NaN"
| "js_mul PInf (Fin b) = (if b = 0 then NaN else if 0 < b then PInf else NInf)"
| "js_mul NInf (Fin b) = (if b = 0 then NaN else if 0 < b then NInf else PInf)"
| "js_mul (Fin a) PInf = (if a = 0 then NaN else if 0 < a then PInf else NInf)"
| "js_mul (Fin a) NInf = (if a = 0 then NaN else if 0 < a then NInf else PInf)"
| "js_mul PInf PInf = PInf"
| "js_mul PInf NInf = NInf"
| "js_mul NInf PInf = NInf"
| "js_mul NInf NInf = PInf"

fun js_div :: "jsnum \<Rightarrow> jsnum \<Rightarrow> jsnum" where
  "js_div (Fin a) (Fin b) =
     (if b = 0 then (if a = 0 then NaN else if 0 < a then PInf else NInf)
      else Fin (a / b))"
| "js_div NaN _ = NaN"
| "js_div _ NaN = NaN"
| "js_div (Fin a) PInf = Fin 0"
| "js_div (Fin a) NInf = Fin 0"
| "js_div PInf (Fin b) = (if 0 \<le> b then PInf else NInf)"
| "js_div NInf (Fin b) = (if 0 \<le> b then NInf else PInf)"
| "js_div PInf PInf = NaN"
| "js_div PInf NInf = NaN"
| "js_div NInf PInf = NaN"
| "js_div NInf NInf = NaN"

definition js_trunc :: "rat \<Rightarrow> int" where
  "js_trunc x = (if x < 0 then \<lceil>x\<rceil> else \<lfloor>x\<rfloor>)"

text \<open>The remainder operator \<open>%\<close>: the result has the sign of the dividend.\<close>

fun js_mod :: "jsnum \<Rightarrow> jsnum \<Rightarrow> jsnum" where
  "js_mod (Fin a) (Fin b) =
     (if b = 0 then NaN else Fin (a - b * of_int (js_trunc (a / b))))"
| "js_mod NaN _ = NaN"
| "js_mod _ NaN = NaN"
| "js_mod PInf _ = NaN"
| "js_mod NInf _ = NaN"
| "js_mod (Fin a) PInf = Fin a"
| "js_mod (Fin a) NInf = Fin a"

fun js_ceil :: "jsnum \<Rightarrow> jsnum" where
  "js_ceil (Fin a) = Fin (of_int \<lceil>a\<rceil>)"
| "js_ceil PInf = PInf"
| "js_ceil NInf = NInf"
| "js_ceil NaN = NaN"

text \<open>The comparison \<open>a <= b\<close>: false whenever an operand is \<open>NaN\<close>.\<close>

fun js_le :: "jsnum \<Rightarrow> jsnum \<Rightarrow> bool" where
  "js_le (Fin a) (Fin b) = (a \<le> b)"
| "js_le NaN _ = False"
| "js_le _ NaN = False"
| "js_le NInf _ = True"
| "js_le _ PInf = True"
| "js_le PInf _ = False"
| "js_le _ NInf = False"

text \<open>\<open>Math.max\<close>: \<open>NaN\<close> if an argument is \<open>NaN\<close>, \<open>-Infinity\<close> of no argument.\<close>

fun js_max2 :: "jsnum \<Rightarrow> jsnum \<Rightarrow> jsnum" where
  "js_max2 NaN _ = NaN"
| "js_max2 _ NaN = NaN"
| "js_max2 a b = (if js_le a b then b else a)"

definition Math_max :: "jsnum list \<Rightarrow> jsnum" where
  "Math_max xs = foldl js_max2 NInf xs"

text \<open>\<open>a || b\<close> on numbers: \<open>b\<close> when \<open>a\<close> is falsy, that is \<open>0\<close> or \<open>NaN\<close>.\<close>

definition js_or :: "jsnum \<Rightarrow> jsnum \<Rightarrow> jsnum" where
  "js_or a b = (if a = Fin 0 \<or> a = NaN then b else a)"

text \<open>
  An array read \<open>xs[i]\<close>: \<open>None\<close> stands for \<open>undefined\<close>, the value of a read
  outside the array. In arithmetic \<open>undefined\<close> becomes \<open>NaN\<close>; a method call on it
  throws a \<open>TypeError\<close>.
\<close>

definition js_index :: "'a list \<Rightarrow> int \<Rightarrow> 'a option" where
  "js_index xs i = (if 0 \<le> i \<and> i < int (length xs) then Some (xs ! nat i) else None)"

definition to_number :: "jsnum option \<Rightarrow> jsnum" where
  "to_number v = (case v of None \<Rightarrow> NaN | Some x \<Rightarrow> x)"

text \<open>\<open>Array.prototype.indexOf\<close>: the first position of the element, or \<open>-1\<close>.\<close>

fun indexOf :: "'a list \<Rightarrow> 'a \<Rightarrow> int" where
  "indexOf [] x = - 1"
| "indexOf (y # ys) x =
     (if y = x then 0 else (let r = indexOf ys x in if r = - 1 then - 1 else r + 1))"

datatype error = TypeError

section \<open>Strings\<close>

text \<open>
  The log is ASCII text (the sampler writes it with \<open>printf\<close> and \<open>echo\<close>); a string
  is a list of characters. \<open>trim\<close> removes the ASCII white space at both ends.
\<close>

definition is_ws :: "char \<Rightarrow> bool" where
  "is_ws c = (c = CHR '' '' \<or> c = CHR 0x09 \<or> c = CHR 0x0A \<or> c = CHR 0x0B
              \<or> c = CHR 0x0C \<or> c = CHR 0x0D)"

definition is_digit :: "char \<Rightarrow> bool" where
  "is_digit c = (c \<in> set ''0123456789'')"

definition js_trim :: "string \<Rightarrow> string" where
  "js_trim s = rev (dropWhile is_ws (rev (dropWhile is_ws s)))"

text \<open>\<open>s.split(c)\<close> for a one-character separator; \<open>''''.split(c)\<close> is \<open>['''']\<close>.\<close>

fun js_split :: "char \<Rightarrow> string \<Rightarrow> string list" where
  "js_split c [] = [[]]"
| "js_split c (x # xs) =
     (let r = js_split c xs in if x = c then [] # r else (x # hd r) # tl r)"

text \<open>\<open>s.replace(pat, rep)\<close> with a string pattern: the first occurrence only.\<close>

fun js_replace :: "string \<Rightarrow> string \<Rightarrow> string \<Rightarrow> string" where
  "js_replace pat rep [] = (if pat = [] then rep else [])"
| "js_replace pat rep (x # xs) =
     (if take (length pat) (x # xs) = pat then rep @ drop (length pat) (x # xs)
      else x # js_replace pat rep xs)"

definition digit_of :: "char \<Rightarrow> nat" where
  "digit_of c = nat (indexOf ''0123456789'' c)"

definition digits_val :: "string \<Rightarrow> nat" where
  "digits_val ds = foldl (\<lambda>acc c. 10 * acc + digit_of c) 0 ds"

text \<open>
  \<open>parseFloat\<close>: skips leading white space, reads the longest prefix that is a decimal
  literal (sign, \<open>Infinity\<close>, or digits with an optional fraction and exponent) and
  returns \<open>NaN\<close> when there is none. The value is the exact decimal value.
\<close>

definition exponent_of :: "string \<Rightarrow> int" where
  "exponent_of r =
     (if r \<noteq> [] \<and> (hd r = CHR ''e'' \<or> hd r = CHR ''E'') then
        (let s = tl r;
             neg = (s \<noteq> [] \<and> hd s = CHR ''-'');
             d = (if s \<noteq> [] \<and> (hd s = CHR ''-'' \<or> hd s = CHR ''+'') then tl s else s);
             ds = takeWhile is_digit d
         in if ds = [] then 0
            else if neg then - int (digits_val ds) else int (digits_val ds))
      else 0)"

definition parseFloat :: "string \<Rightarrow> jsnum" where
  "parseFloat s =
     (let t = dropWhile is_ws s;
          neg = (t \<noteq> [] \<and> hd t = CHR ''-'');
          u = (if t \<noteq> [] \<and> (hd t = CHR ''-'' \<or> hd t = CHR ''+'') then tl t else t)
      in if take 8 u = ''Infinity'' then (if neg then NInf else PInf)
         else
           (let ip = takeWhile is_digit u;
                r1 = dropWhile is_digit u;
                hasdot = (r1 \<noteq> [] \<and> hd r1 = CHR ''.'');
                fp = (if hasdot then takeWhile is_digit (tl r1) else []);
                r2 = (if hasdot then dropWhile is_digit (tl r1) else r1)
            in if ip = [] \<and> fp = [] then NaN
               else
                 (let m = of_nat (digits_val ip) + of_nat (digits_val fp) / 10 ^ length fp;
                      e = exponent_of r2;
                      v = (if 0 \<le> e then m * 10 ^ nat e else m / 10 ^ nat (- e))
                  in Fin (if neg then - v else v))))"

section \<open>The log parser\<close>

text \<open>
  \<^verbatim>\<open>interface ProcessData { timestamps: string[]; rss: number[] }\<close>. The
  \<open>Map<string, ProcessData>\<close> is an association list in insertion order, the
  \<open>Set<string>\<close> of timestamps a duplicate-free list in insertion order.
\<close>

record ProcessData =
  timestamps :: "string list"
  rss :: "jsnum list"

type_synonym processes = "(string \<times> ProcessData) list"

definition map_has :: "('k \<times> 'v) list \<Rightarrow> 'k \<Rightarrow> bool" where
  "map_has m k = (map_of m k \<noteq> None)"

fun map_set :: "('k \<times> 'v) list \<Rightarrow> 'k \<Rightarrow> 'v \<Rightarrow> ('k \<times> 'v) list" where
  "map_set [] k v = [(k, v)]"
| "map_set ((k', v') # m) k v =
     (if k' = k then (k, v) # m else (k', v') # map_set m k v)"

text \<open>A mutation of the object stored under a key: \<open>m.get(k)!.field.push(x)\<close>.\<close>

definition map_modify :: "('k \<times> 'v) list \<Rightarrow> 'k \<Rightarrow> ('v \<Rightarrow> 'v) \<Rightarrow> ('k \<times> 'v) list" where
  "map_modify m k f = (case map_of m k of None \<Rightarrow> m | Some v \<Rightarrow> map_set m k (f v))"

definition set_add :: "'a list \<Rightarrow> 'a \<Rightarrow> 'a list" where
  "set_add s x = (if x \<in> set s then s else s @ [x])"

text \<open>The body of \<open>forEach\<close> in \<open>parseLogFile\<close>, on the two collections it mutates.\<close>

definition parse_line :: "processes \<times> string list \<Rightarrow> string \<Rightarrow> processes \<times> string list" where
  "parse_line st line =
     (let parts = js_split CHR ''|'' (js_trim line)
      in if length parts \<noteq> 6 then st
         else
           (let ps = map js_trim parts;
                timestamp = ps ! 0; pid = ps ! 1; name = ps ! 2; rssText = ps ! 5;
                rssValue = parseFloat (js_replace ''MB'' [] rssText);
                processKey = pid @ ''-'' @ name;
                p0 = fst st;
                p1 = (if \<not> map_has p0 processKey
                      then map_set p0 processKey \<lparr>timestamps = [], rss = []\<rparr> else p0);
                p2 = map_modify p1 processKey (\<lambda>d. d\<lparr>timestamps := timestamps d @ [timestamp]\<rparr>);
                p3 = map_modify p2 processKey (\<lambda>d. d\<lparr>rss := rss d @ [rssValue]\<rparr>)
            in (p3, set_add (snd st) timestamp)))"

definition parse_lines :: "string list \<Rightarrow> processes \<times> string list" where
  "parse_lines ls = (let st = foldl parse_line ([], []) ls in (fst st, sort (snd st)))"

text \<open>\<open>parseLogFile\<close>, on the text of the log file.\<close>

definition parseLogFile :: "string \<Rightarrow> processes \<times> string list" where
  "parseLogFile text = parse_lines (drop 2 (js_split CHR 0x0A text))"

section \<open>The aggregator\<close>

text \<open>
  Both renderers compute the aggregate of a timestamp with the same expression:
  \<^verbatim>\<open>Array.from(processes.values()).filter(p => p.timestamps.includes(timestamp))
    .reduce((sum, p) => sum + p.rss[p.timestamps.indexOf(timestamp)], 0)\<close>
\<close>

definition aggregateAt :: "processes \<Rightarrow> string \<Rightarrow> jsnum" where
  "aggregateAt procs timestamp =
     foldl (\<lambda>sum p. js_add sum (to_number (js_index (rss p) (indexOf (timestamps p) timestamp))))
       (Fin 0)
       (filter (\<lambda>p. timestamp \<in> set (timestamps p)) (map snd procs))"

definition aggregatedRss :: "processes \<Rightarrow> string list \<Rightarrow> jsnum list" where
  "aggregatedRss procs ts = map (aggregateAt procs) ts"

section \<open>The downsampler\<close>

text \<open>The first three statements of \<open>generateMermaidChart\<close>, on the number of timestamps.\<close>

definition targetPoints :: "nat \<Rightarrow> nat" where
  "targetPoints n = (if n < 30 then n else if n < 100 then 20 else 30)"

definition interval :: "nat \<Rightarrow> jsnum" where
  "interval n = js_ceil (js_div (Fin (of_nat n)) (Fin (of_nat (targetPoints n))))"

definition sampledTimestamps :: "'a list \<Rightarrow> 'a list" where
  "sampledTimestamps ts =
     map fst (filter (\<lambda>(t, i). js_mod (Fin (of_nat i)) (interval (length ts)) = Fin 0)
                (zip ts [0..<length ts]))"

section \<open>The diagram\<close>

text \<open>
  The diagram is modelled by its statements instead of its text: a node
  \<^verbatim>\<open>id["key<br/>valueMB"]\<close>, an edge \<^verbatim>\<open>a --> b\<close> and a class statement
  \<^verbatim>\<open>class id name\<close>. Identifiers are the strings the templates build.
\<close>

datatype mnode = Node string string jsnum
datatype medge = Edge string string
datatype mclass = ClassStmt string string

record subgraph =
  sg_id :: string
  sg_title :: string
  sg_nodes :: "mnode list"

record MermaidChart =
  subgraphs :: "subgraph list"
  processEdges :: "medge list list"
  aggregateEdges :: "medge list"
  classDefs :: "string list"
  classStmts :: "mclass list"

definition digit_char :: "nat \<Rightarrow> char" where
  "digit_char d = ''0123456789'' ! d"

text \<open>The decimal text of an index, as a template literal prints it.\<close>

fun show_nat :: "nat \<Rightarrow> string" where
  "show_nat n = (if n < 10 then [digit_char n] else show_nat (n div 10) @ [digit_char (n mod 10)])"

declare show_nat.simps [simp del]

definition is_alnum :: "char \<Rightarrow> bool" where
  "is_alnum c = (c \<in> set ''abcdefghijklmnopqrstuvwxyzABCDEFGHIJKLMNOPQRSTUVWXYZ0123456789'')"

text \<open>\<^verbatim>\<open>key.replace(/[^a-zA-Z0-9]/g, '_')\<close>\<close>

definition cleanKey :: "string \<Rightarrow> string" where
  "cleanKey key = map (\<lambda>c. if is_alnum c then c else CHR ''_'') key"

definition node_id :: "string \<Rightarrow> nat \<Rightarrow> string" where
  "node_id ck i = ck @ ''_'' @ show_nat i"

definition agg_id :: "nat \<Rightarrow> string" where
  "agg_id i = ''Agg_'' @ show_nat i"

text \<open>
  The node of one series in the subgraph of the \<open>i\<close>-th sampled timestamp: nothing when
  the series has no entry there (the empty string, removed by \<open>filter(Boolean)\<close>);
  \<open>rss.toFixed(0)\<close> throws when the read \<open>data.rss[idx]\<close> is \<open>undefined\<close>.
\<close>

definition process_node :: "string \<Rightarrow> nat \<Rightarrow> string \<times> ProcessData \<Rightarrow> error + mnode list" where
  "process_node timestamp i entry =
     (let key = fst entry; data = snd entry;
          idx = indexOf (timestamps data) timestamp
      in if idx = - 1 then Inr []
         else (case js_index (rss data) idx of
                 None \<Rightarrow> Inl TypeError
               | Some r \<Rightarrow> Inr [Node (node_id (cleanKey key) i) key r]))"

text \<open>Evaluation from left to right: the first exception ends it.\<close>

fun collect :: "(error + 'a) list \<Rightarrow> error + 'a list" where
  "collect [] = Inr []"
| "collect (x # xs) =
     (case x of Inl e \<Rightarrow> Inl e
      | Inr v \<Rightarrow> (case collect xs of Inl e \<Rightarrow> Inl e | Inr vs \<Rightarrow> Inr (v # vs)))"

definition subgraph_of :: "processes \<Rightarrow> jsnum list \<Rightarrow> string \<Rightarrow> nat \<Rightarrow> error + subgraph" where
  "subgraph_of procs aggregated timestamp i =
     (case collect (map (process_node timestamp i) procs) of
        Inl e \<Rightarrow> Inl e
      | Inr ns \<Rightarrow>
          (case js_index aggregated (int i) of
             None \<Rightarrow> Inl TypeError
           | Some a \<Rightarrow>
               Inr \<lparr>sg_id = ''T'' @ show_nat i, sg_title = timestamp,
                    sg_nodes = concat ns @ [Node (agg_id i) ''Aggregated'' a]\<rparr>))"

text \<open>The edges of one series over the sampled timestamps.\<close>

definition series_edges :: "string list \<Rightarrow> string \<times> ProcessData \<Rightarrow> medge list" where
  "series_edges sampled entry =
     (let key = fst entry; data = snd entry; ck = cleanKey key
      in concat (map (\<lambda>(timestamp, i).
           if i = 0 then []
           else (let prevIdx = indexOf (timestamps data) (sampled ! (i - 1));
                     currIdx = indexOf (timestamps data) timestamp
                 in if prevIdx = - 1 \<or> currIdx = - 1 then []
                    else [Edge (node_id ck (i - 1)) (node_id ck i)]))
         (zip sampled [0..<length sampled])))"

definition aggregate_edges :: "string list \<Rightarrow> medge list" where
  "aggregate_edges sampled =
     concat (map (\<lambda>i. if i = 0 then [] else [Edge (agg_id (i - 1)) (agg_id i)])
               [0..<length sampled])"

definition class_stmts :: "processes \<Rightarrow> string list \<Rightarrow> mclass list" where
  "class_stmts procs sampled =
     map (\<lambda>key. ClassStmt (cleanKey key) ''process'') (map fst procs)
     @ map (\<lambda>i. ClassStmt (agg_id i) ''aggregated'') [0..<length sampled]"

definition generateMermaidChart :: "processes \<Rightarrow> string list \<Rightarrow> error + MermaidChart" where
  "generateMermaidChart procs ts =
     (let sampled = sampledTimestamps ts;
          aggregated = aggregatedRss procs sampled
      in case collect (map (\<lambda>(timestamp, i). subgraph_of procs aggregated timestamp i)
                         (zip sampled [0..<length sampled])) of
           Inl e \<Rightarrow> Inl e
         | Inr sgs \<Rightarrow>
             Inr \<lparr>subgraphs = sgs,
                  processEdges = map (series_edges sampled) procs,
                  aggregateEdges = aggregate_edges sampled,
                  classDefs = [''process'', ''aggregated''],
                  classStmts = class_stmts procs sampled\<rparr>)"

section \<open>The vector chart\<close>

definition width :: rat where "width = 1400"
definition height :: rat where "height = 800"
definition margin_top :: rat where "margin_top = 60"
definition margin_right :: rat where "margin_right = 300"
definition margin_bottom :: rat where "margin_bottom = 100"
definition margin_left :: rat where "margin_left = 100"
definition gridInterval :: rat where "gridInterval = 500"

definition colors :: "string list" where
  "colors = [''#FF9B9B'', ''#4ECDC4'', ''#45B7D1'', ''#96CEB4'', ''#FFEEAD'', ''#D4A5A5'']"

text \<open>
  \<^verbatim>\<open>const yAxisMax = Math.ceil(maxRss / 1000) * 1000;\<close>, with \<open>maxRss\<close> the maximum of
  the individual and the aggregated values.
\<close>

definition maxRssOf :: "processes \<Rightarrow> string list \<Rightarrow> jsnum" where
  "maxRssOf procs ts =
     (let maxIndividualRss = Math_max (concat (map (\<lambda>p. rss p) (map snd procs)));
          maxAggregatedRss = Math_max (aggregatedRss procs ts)
      in Math_max [maxIndividualRss, maxAggregatedRss])"

definition yAxisMaxOf :: "jsnum \<Rightarrow> jsnum" where
  "yAxisMaxOf maxRss = js_mul (js_ceil (js_div maxRss (Fin 1000))) (Fin 1000)"

text \<open>
  \<^verbatim>\<open>const xScale = (width - margin.left - margin.right) / (timestamps.length - 1) || 1;\<close>
  The division binds tighter than \<open>||\<close>: the alternative \<open>1\<close> replaces the quotient,
  not the divisor.
\<close>

definition xScale :: "nat \<Rightarrow> jsnum" where
  "xScale n =
     js_or (js_div (Fin (width - margin_left - margin_right)) (Fin (of_nat n - 1))) (Fin 1)"

definition yScale :: "jsnum \<Rightarrow> jsnum" where
  "yScale yAxisMax = js_div (Fin (height - margin_top - margin_bottom)) yAxisMax"

text \<open>
  \<^verbatim>\<open>for (let i = 0; i <= yAxisMax; i += gridInterval)\<close>: the values of \<open>i\<close> for
  which the body runs. The loop does not end when \<open>yAxisMax\<close> is \<open>Infinity\<close>; the
  result is then \<open>None\<close>.
\<close>

partial_function (option) grid_loop :: "jsnum \<Rightarrow> rat \<Rightarrow> rat list \<Rightarrow> rat list option" where
  "grid_loop yAxisMax i acc =
     (if js_le (Fin i) yAxisMax then grid_loop yAxisMax (i + gridInterval) (acc @ [i])
      else Some acc)"

declare grid_loop.simps [code]

text \<open>
  \<^verbatim>\<open>for (let i = 0; i < timestamps.length; i += labelInterval)\<close>: the indices
  that get a label. With \<open>labelInterval = 0\<close> and a timestamp the loop would not end.
\<close>

partial_function (option) label_loop :: "nat \<Rightarrow> nat \<Rightarrow> nat \<Rightarrow> nat list \<Rightarrow> nat list option" where
  "label_loop n labelInterval i acc =
     (if i < n then label_loop n labelInterval (i + labelInterval) (acc @ [i])
      else Some acc)"

declare label_loop.simps [code]

definition y_of :: "jsnum \<Rightarrow> jsnum \<Rightarrow> jsnum" where
  "y_of ys v = js_sub (Fin (height - margin_bottom)) (js_mul v ys)"

definition x_of :: "jsnum \<Rightarrow> int \<Rightarrow> jsnum" where
  "x_of xs i = js_add (Fin margin_left) (js_mul (Fin (of_int i)) xs)"

record SvgChart =
  svg_yAxisMax :: jsnum
  svg_xScale :: jsnum
  svg_yScale :: jsnum
  svg_gridlines :: "(rat \<times> jsnum) list"
  svg_yLabels :: "(rat \<times> jsnum) list"
  svg_xLabels :: "(jsnum \<times> string) list"
  svg_polylines :: "(string \<times> string \<times> (jsnum \<times> jsnum) list) list"
  svg_aggregatedPoints :: "(jsnum \<times> jsnum) list"

definition polyline_of :: "string list \<Rightarrow> jsnum \<Rightarrow> jsnum \<Rightarrow> (string \<times> ProcessData) \<times> nat
    \<Rightarrow> string \<times> string \<times> (jsnum \<times> jsnum) list" where
  "polyline_of ts xs ys e =
     (let key = fst (fst e); data = snd (fst e); idx = snd e
      in (key, colors ! (idx mod length colors),
          map (\<lambda>(timestamp, i).
                 (x_of xs (indexOf ts timestamp),
                  y_of ys (to_number (js_index (rss data) (int i)))))
            (zip (timestamps data) [0..<length (timestamps data)])))"

definition generateSvg :: "processes \<Rightarrow> string list \<Rightarrow> SvgChart option" where
  "generateSvg procs ts =
     (let aggregated = aggregatedRss procs ts;
          yAxisMax = yAxisMaxOf (maxRssOf procs ts);
          xs = xScale (length ts);
          ys = yScale yAxisMax;
          labelInterval = nat \<lceil>(of_nat (length ts) :: rat) / 15\<rceil>
      in case grid_loop yAxisMax 0 [] of
           None \<Rightarrow> None
         | Some grid \<Rightarrow>
             (case grid_loop yAxisMax 0 [] of
                None \<Rightarrow> None
              | Some labels \<Rightarrow>
                  (case label_loop (length ts) labelInterval 0 [] of
                     None \<Rightarrow> None
                   | Some ls \<Rightarrow>
                       Some \<lparr>svg_yAxisMax = yAxisMax, svg_xScale = xs, svg_yScale = ys,
                         svg_gridlines = map (\<lambda>i. (i, y_of ys (Fin i))) grid,
                         svg_yLabels = map (\<lambda>i. (i, js_add (y_of ys (Fin i)) (Fin 5))) labels,
                         svg_xLabels = map (\<lambda>i. (x_of xs (int i), ts ! i)) ls,
                         svg_polylines =
                           map (polyline_of ts xs ys) (zip procs [0..<length procs]),
                         svg_aggregatedPoints =
                           map (\<lambda>(a, i). (x_of xs (int i), y_of ys a))
                             (zip aggregated [0..<length aggregated])\<rparr>)))"

section \<open>The summary\<close>

record ProcessDetails =
  pd_key :: string
  pd_max :: jsnum
  pd_avg :: jsnum
  pd_count :: nat
  pd_last :: jsnum

record Summary =
  s_processCount :: nat
  s_maxRss :: jsnum
  s_duration :: string
  s_details :: "ProcessDetails list"

text \<open>
  One entry of the process details; \<open>lastRss.toFixed(2)\<close> throws when the series has no
  value (\<open>data.rss[data.rss.length - 1]\<close> is then \<open>undefined\<close>).
\<close>

definition details_of :: "string \<times> ProcessData \<Rightarrow> error + ProcessDetails" where
  "details_of entry =
     (let key = fst entry; data = snd entry;
          maxProcessRss = Math_max (rss data);
          avgProcessRss = js_div (foldl js_add (Fin 0) (rss data)) (Fin (of_nat (length (rss data))));
          lastRss = js_index (rss data) (int (length (rss data)) - 1)
      in case lastRss of
           None \<Rightarrow> Inl TypeError
         | Some l \<Rightarrow>
             Inr \<lparr>pd_key = key, pd_max = maxProcessRss, pd_avg = avgProcessRss,
                  pd_count = length (rss data), pd_last = l\<rparr>)"

definition duration_of :: "string list \<Rightarrow> string" where
  "duration_of ts =
     (if length ts > 0 then ''from '' @ ts ! 0 @ '' to '' @ ts ! (length ts - 1) else ''N/A'')"

definition composeSummary :: "processes \<Rightarrow> string list \<Rightarrow> error + Summary" where
  "composeSummary procs ts =
     (let maxRss = Math_max (concat (map (\<lambda>p. rss p) (map snd procs)));
          processCount = length procs;
          duration = duration_of ts
      in case collect (map details_of procs) of
           Inl e \<Rightarrow> Inl e
         | Inr ds \<Rightarrow>
             Inr \<lparr>s_processCount = processCount, s_maxRss = maxRss,
                  s_duration = duration, s_details = ds\<rparr>)"

text \<open>
  The rendering steps of \<open>run\<close> (with the summary sink set), on the text of the log:
  \<open>None\<close> when a loop does not end, \<open>Inl\<close> when a step throws (\<open>run\<close> then logs the
  error and exits with code 1). Stopping the sampler, writing the files and uploading
  the artifacts are outside the model.
\<close>

definition run :: "string \<Rightarrow> (error + MermaidChart \<times> SvgChart \<times> Summary) option" where
  "run text =
     (let parsed = parseLogFile text; procs = fst parsed; ts = snd parsed
      in case generateMermaidChart procs ts of
           Inl e \<Rightarrow> Some (Inl e)
         | Inr mermaidChart \<Rightarrow>
             (case generateSvg procs ts of
                None \<Rightarrow> None
              | Some svgContent \<Rightarrow>
                  (case composeSummary procs ts of
                     Inl e \<Rightarrow> Some (Inl e)
                   | Inr summary \<Rightarrow> Some (Inr (mermaidChart, svgContent, summary)))))"

section \<open>Array reads\<close>

text \<open>
  A read \<open>xs[i]\<close> outside the array is no error in JavaScript: it yields \<open>undefined\<close>.
  To state where the rendering reads, the element reads of the three renderers are
  listed, each as the index and the length of the array read, in the order of the
  source. (Reads that an exception would prevent are listed as well.)
\<close>

type_synonym array_read = "int \<times> nat"

definition in_bounds :: "array_read \<Rightarrow> bool" where
  "in_bounds r = (0 \<le> fst r \<and> fst r < int (snd r))"

text \<open>\<^verbatim>\<open>p.rss[p.timestamps.indexOf(timestamp)]\<close> in the aggregate of a timestamp.\<close>

definition aggregate_reads :: "processes \<Rightarrow> string \<Rightarrow> array_read list" where
  "aggregate_reads procs timestamp =
     map (\<lambda>p. (indexOf (timestamps p) timestamp, length (rss p)))
       (filter (\<lambda>p. timestamp \<in> set (timestamps p)) (map snd procs))"

text \<open>
  \<open>generateMermaidChart\<close>: the aggregates of the sampled timestamps; \<open>data.rss[idx]\<close>
  and \<open>aggregatedRss[i]\<close> in the subgraphs; \<open>sampledTimestamps[i-1]\<close> in the edges.
\<close>

definition mermaid_reads :: "processes \<Rightarrow> string list \<Rightarrow> array_read list" where
  "mermaid_reads procs ts =
     (let sampled = sampledTimestamps ts;
          aggregated = aggregatedRss procs sampled
      in concat (map (aggregate_reads procs) sampled)
         @ concat (map (\<lambda>(timestamp, i).
               concat (map (\<lambda>e. let idx = indexOf (timestamps (snd e)) timestamp
                                in if idx = - 1 then [] else [(idx, length (rss (snd e)))])
                         procs)
               @ [(int i, length aggregated)])
             (zip sampled [0..<length sampled]))
         @ concat (map (\<lambda>e. concat (map (\<lambda>i. if i = 0 then []
                                                else [(int i - 1, length sampled)])
                                      [0..<length sampled]))
                     procs))"

text \<open>
  \<open>generateSvg\<close>: the aggregates of all timestamps; \<open>timestamps[i]\<close> in the loop of
  the labels; for every series \<open>data.rss[i]\<close> at each of its timestamps and
  \<open>colors[idx % colors.length]\<close> for the line and for the legend; \<open>aggregatedRss[i]\<close>.
\<close>

definition svg_reads :: "processes \<Rightarrow> string list \<Rightarrow> array_read list" where
  "svg_reads procs ts =
     (let aggregated = aggregatedRss procs ts;
          labelInterval = nat \<lceil>(of_nat (length ts) :: rat) / 15\<rceil>
      in concat (map (aggregate_reads procs) ts)
         @ (case label_loop (length ts) labelInterval 0 [] of
              None \<Rightarrow> []
            | Some ls \<Rightarrow> map (\<lambda>i. (int i, length ts)) ls)
         @ concat (map (\<lambda>(e, idx).
               map (\<lambda>i. (int i, length (rss (snd e)))) [0..<length (timestamps (snd e))]
               @ [(int (idx mod length colors), length colors),
                  (int (idx mod length colors), length colors)])
             (zip procs [0..<length procs]))
         @ map (\<lambda>i. (int i, length aggregated)) [0..<length ts])"

text \<open>
  The summary: \<open>timestamps[0]\<close> and \<open>timestamps[timestamps.length - 1]\<close> behind the
  test of the length; \<open>data.rss[data.rss.length - 1]\<close> for every series.
\<close>

definition summary_reads :: "processes \<Rightarrow> string list \<Rightarrow> array_read list" where
  "summary_reads procs ts =
     (if length ts > 0 then [(0, length ts), (int (length ts) - 1, length ts)] else [])
     @ map (\<lambda>e. (int (length (rss (snd e))) - 1, length (rss (snd e)))) procs"

definition pipeline_reads :: "processes \<Rightarrow> string list \<Rightarrow> array_read list" where
  "pipeline_reads procs ts = mermaid_reads procs ts @ svg_reads procs ts @ summary_reads procs ts"

section \<open>Specification-side definitions\<close>

text \<open>
  The definitions of this section follow the words of the specification; the properties
  below compare them with the definitions above, which follow the code.

  The stride: the ceiling of the timestamp count divided by the target density.
\<close>

definition spec_stride :: "nat \<Rightarrow> nat" where
  "spec_stride n = nat \<lceil>(of_nat n :: rat) / of_nat (targetPoints n)\<rceil>"

text \<open>
  The invariant of a Series: as many values as timestamps. The entry of a series at a
  timestamp is its value there (the first one, should a timestamp occur twice); a series
  without an entry contributes zero to the aggregate.
\<close>

definition series_ok :: "ProcessData \<Rightarrow> bool" where
  "series_ok p = (length (timestamps p) = length (rss p))"

definition spec_value_at :: "ProcessData \<Rightarrow> string \<Rightarrow> jsnum option" where
  "spec_value_at p t = map_of (zip (timestamps p) (rss p)) t"

definition spec_contribution :: "string \<Rightarrow> ProcessData \<Rightarrow> jsnum" where
  "spec_contribution t p = (case spec_value_at p t of None \<Rightarrow> Fin 0 | Some v \<Rightarrow> v)"

definition js_sum :: "jsnum list \<Rightarrow> jsnum" where
  "js_sum xs = foldl js_add (Fin 0) xs"

text \<open>The two series of the specification's example.\<close>

definition example_processes :: processes where
  "example_processes =
     [(''101-DaemonA'',
       \<lparr>timestamps = [''00:00:00'', ''00:00:05'', ''00:00:10''],
        rss = [Fin 100, Fin 150, Fin 200]\<rparr>),
      (''202-DaemonB'',
       \<lparr>timestamps = [''00:00:00'', ''00:00:05''], rss = [Fin 50, Fin 50]\<rparr>)]"

text \<open>
  A dataset of finite values, the list of all its individual values, and a value rounded
  up to the next multiple of 1000.
\<close>

fun is_fin :: "jsnum \<Rightarrow> bool" where
  "is_fin (Fin a) = True"
| "is_fin _ = False"

fun the_fin :: "jsnum \<Rightarrow> rat" where
  "the_fin (Fin a) = a"
| "the_fin _ = 0"

definition finite_values :: "processes \<Rightarrow> bool" where
  "finite_values procs = list_all (\<lambda>p. list_all is_fin (rss p)) (map snd procs)"

definition individual_values :: "processes \<Rightarrow> jsnum list" where
  "individual_values procs = concat (map (\<lambda>p. rss p) (map snd procs))"

definition spec_yAxisMax :: "rat \<Rightarrow> rat" where
  "spec_yAxisMax peak = of_int \<lceil>peak / 1000\<rceil> * 1000"

text \<open>Two series whose values at 00:00:05 are 1500 and 800.\<close>

definition peak_example :: processes where
  "peak_example =
     [(''101-DaemonA'', \<lparr>timestamps = [''00:00:00'', ''00:00:05''], rss = [Fin 900, Fin 1500]\<rparr>),
      (''202-DaemonB'', \<lparr>timestamps = [''00:00:05''], rss = [Fin 800]\<rparr>)]"

text \<open>A line that splits into exactly six fields.\<close>

definition six_fields :: "string \<Rightarrow> bool" where
  "six_fields line = (length (js_split CHR ''|'' (js_trim line)) = 6)"

text \<open>The sample a six-field line yields: its timestamp, its composite key, its value.\<close>

definition sample_of :: "string \<Rightarrow> string \<times> string \<times> jsnum" where
  "sample_of line =
     (let ps = map js_trim (js_split CHR ''|'' (js_trim line))
      in (ps ! 0, ps ! 1 @ ''-'' @ ps ! 2, parseFloat (js_replace ''MB'' [] (ps ! 5))))"

text \<open>The series of a key before a line is read: empty when the key is new.\<close>

definition series_before :: "processes \<Rightarrow> string \<Rightarrow> ProcessData" where
  "series_before procs key =
     (case map_of procs key of None \<Rightarrow> \<lparr>timestamps = [], rss = []\<rparr> | Some d \<Rightarrow> d)"

text \<open>A log whose second data line has five fields.\<close>

definition malformed_log :: string where
  "malformed_log =
     ''Starting memory monitor at Mon'' @ [CHR 0x0A]
     @ ''Elapsed_Time | PID | Name | Heap_Used_MB | Heap_Capacity_MB | RSS_MB'' @ [CHR 0x0A]
     @ ''00:00:00 | 101 | DaemonA | 10.0MB | 20.0MB | 100.0MB'' @ [CHR 0x0A]
     @ ''00:00:05 | 101 | DaemonA | 10.0MB | 150.0MB'' @ [CHR 0x0A]
     @ ''00:00:10 | 101 | DaemonA | 10.0MB | 20.0MB | 200.5MB'' @ [CHR 0x0A]"

text \<open>
  Two lines that split into six fields and agree on all but the fourth and the fifth
  (the used and the capacity of the heap); two texts whose lines are pairwise equal or
  such variants.
\<close>

definition heap_variant :: "string \<Rightarrow> string \<Rightarrow> bool" where
  "heap_variant l l' =
     (let p = js_split CHR ''|'' l; q = js_split CHR ''|'' l'
      in length p = 6 \<and> length q = 6
         \<and> p ! 0 = q ! 0 \<and> p ! 1 = q ! 1 \<and> p ! 2 = q ! 2 \<and> p ! 5 = q ! 5)"

definition same_but_heap :: "string \<Rightarrow> string \<Rightarrow> bool" where
  "same_but_heap text text' =
     list_all2 (\<lambda>l l'. l = l' \<or> heap_variant l l')
       (js_split CHR 0x0A text) (js_split CHR 0x0A text')"

definition heap_example_a :: string where
  "heap_example_a =
     ''Starting memory monitor'' @ [CHR 0x0A]
     @ ''Elapsed_Time | PID | Name | Heap_Used_MB | Heap_Capacity_MB | RSS_MB'' @ [CHR 0x0A]
     @ ''00:00:00 | 101 | DaemonA | 10.0MB | 20.0MB | 100.0MB''"

definition heap_example_b :: string where
  "heap_example_b =
     ''Starting memory monitor'' @ [CHR 0x0A]
     @ ''Elapsed_Time | PID | Name | Heap_Used_MB | Heap_Capacity_MB | RSS_MB'' @ [CHR 0x0A]
     @ ''00:00:00 | 101 | DaemonA | 77.7MB |  | 100.0MB''"

text \<open>The log of a run that saw no watched process.\<close>

definition header_only_log :: string where
  "header_only_log =
     ''Starting memory monitor at Mon Nov  2 20:05:00 UTC 2026'' @ [CHR 0x0A]
     @ ''Elapsed_Time | PID | Name | Heap_Used_MB | Heap_Capacity_MB | RSS_MB'' @ [CHR 0x0A]"

text \<open>The state of the parser's loop: distinct keys, every series with the invariant.\<close>

definition parser_state_ok :: "processes \<times> string list \<Rightarrow> bool" where
  "parser_state_ok st =
     (distinct (map fst (fst st)) \<and> list_all series_ok (map snd (fst st)))"

text \<open>A series with two timestamps and one value, against the invariant.\<close>

definition broken_series :: processes where
  "broken_series =
     [(''101-DaemonA'', \<lparr>timestamps = [''00:00:00'', ''00:00:05''], rss = [Fin 100]\<rparr>)]"

text \<open>
  The aggregate of a timestamp as the specification words it: the sum over the series of
  the value of the series there, zero for a series without an entry. The peak of a
  dataset is the maximum over all individual values and all these sums.
\<close>

definition spec_aggregate :: "processes \<Rightarrow> string \<Rightarrow> jsnum" where
  "spec_aggregate procs t = js_sum (map (spec_contribution t) (map snd procs))"

definition spec_peak :: "processes \<Rightarrow> string list \<Rightarrow> rat" where
  "spec_peak procs ts =
     Max (the_fin ` (set (individual_values procs) \<union> set (map (spec_aggregate procs) ts)))"

text \<open>A dataset whose values are all zero, and a log that holds it.\<close>

definition zero_example :: processes where
  "zero_example =
     [(''101-DaemonA'', \<lparr>timestamps = [''00:00:00'', ''00:00:05''], rss = [Fin 0, Fin 0]\<rparr>)]"

definition zero_log :: string where
  "zero_log =
     ''Starting memory monitor'' @ [CHR 0x0A]
     @ ''Elapsed_Time | PID | Name | Heap_Used_MB | Heap_Capacity_MB | RSS_MB'' @ [CHR 0x0A]
     @ ''00:00:00 | 101 | DaemonA | 0.0MB | 0.0MB | 0.0MB'' @ [CHR 0x0A]
     @ ''00:00:05 | 101 | DaemonA | 0.0MB | 0.0MB | 0.0MB'' @ [CHR 0x0A]"

text \<open>A log whose last line was cut after the fifth pipe.\<close>

definition cut_log :: string where
  "cut_log =
     ''Starting memory monitor'' @ [CHR 0x0A]
     @ ''Elapsed_Time | PID | Name | Heap_Used_MB | Heap_Capacity_MB | RSS_MB'' @ [CHR 0x0A]
     @ ''00:00:00 | 101 | DaemonA | 10.0MB | 20.0MB | 100.0MB'' @ [CHR 0x0A]
     @ ''00:00:05 | 101 | DaemonA | 10.0MB | 20.0MB | ''"

text \<open>A series that holds a value.\<close>

definition series_nonempty :: "ProcessData \<Rightarrow> bool" where
  "series_nonempty p = (rss p \<noteq> [])"

section \<open>Properties\<close>

subsection \<open>Arithmetic of strides\<close>

lemma div_up_exact: "0 < k \<Longrightarrow> n mod k = 0 \<Longrightarrow> (n + k - 1) div k = n div (k::nat)"
proof (rule div_nat_eqI)
  assume k: "0 < k" and m: "n mod k = 0"
  have e: "k * (n div k) = n" using m by auto
  show "k * (n div k) \<le> n + k - 1" using e k by linarith
  show "n + k - 1 < k * Suc (n div k)" using e k by simp
qed

lemma div_up_inexact: "0 < k \<Longrightarrow> n mod k \<noteq> 0 \<Longrightarrow> (n + k - 1) div k = Suc (n div (k::nat))"
proof (rule div_nat_eqI)
  assume k: "0 < k" and m: "n mod k \<noteq> 0"
  define q where "q = n div k"
  define r where "r = n mod k"
  have e: "n = k * q + r" by (simp add: q_def r_def)
  have l: "r < k" "0 < r" using k m by (simp_all add: r_def)
  have "k * Suc q \<le> n + k - 1" using e l by simp
  then show "k * Suc (n div k) \<le> n + k - 1" by (simp only: q_def)
  have "n + k - 1 < k * Suc (Suc q)" using e l by simp
  then show "n + k - 1 < k * Suc (Suc (n div k))" by (simp only: q_def)
qed

lemma multiples_upto:
  "0 < k \<Longrightarrow> filter (\<lambda>i. i mod k = 0) [0..<n] = map (\<lambda>j. j * k) [0..<(n + k - 1) div k]"
proof (induction n)
  case 0
  then show ?case by simp
next
  case (Suc n)
  have s: "(Suc n + k - 1) div k = Suc (n div k)" using Suc.prems by simp
  show ?case
  proof (cases "n mod k = 0")
    case True
    have "n div k * k = n" using True by auto
    then show ?thesis using Suc True s div_up_exact [of k n] by simp
  next
    case False
    then show ?thesis using Suc s div_up_inexact [of k n] by simp
  qed
qed

lemma ceil_div_nat:
  assumes "0 < t"
  shows "\<lceil>(of_nat n :: rat) / of_nat t\<rceil> = int ((n + t - 1) div t)"
proof (rule ceiling_unique)
  let ?q = "(n + t - 1) div t"
  have f2: "?q * t < n + t"
    using assms div_times_less_eq_dividend [of "n + t - 1" t] by linarith
  have "n + t - 1 < t + ?q * t"
    using assms dividend_less_div_times [of t "n + t - 1"] by simp
  then have f1: "n \<le> ?q * t" using assms by linarith
  have t: "(0::rat) < of_nat t" using assms by simp
  have "(of_nat n :: rat) \<le> of_nat (?q * t)" using f1 of_nat_le_iff by blast
  then show "(of_nat n :: rat) / of_nat t \<le> of_int (int ?q)"
    using t by (simp add: pos_divide_le_eq)
  have "(of_nat (?q * t) :: rat) < of_nat (n + t)" using f2 of_nat_less_iff by blast
  then have "(of_nat ?q - 1) * (of_nat t :: rat) < of_nat n" by (simp add: algebra_simps)
  then show "of_int (int ?q) - 1 < (of_nat n :: rat) / of_nat t"
    using t by (simp add: pos_less_divide_eq)
qed

lemma js_mod_nat:
  assumes "0 < k"
  shows "js_mod (Fin (of_nat i)) (Fin (of_nat k)) = Fin (of_nat (i mod k))"
proof -
  have nn: "\<not> (of_nat i :: rat) / of_nat k < 0" by (simp add: not_less)
  have "(of_nat i :: rat) = of_nat (k * (i div k) + i mod k)" by simp
  then have e: "(of_nat i :: rat) = of_nat k * of_nat (i div k) + of_nat (i mod k)"
    by (simp only: of_nat_add of_nat_mult)
  have "js_trunc ((of_nat i :: rat) / of_nat k) = int (i div k)"
    using nn by (simp add: js_trunc_def floor_divide_of_nat_eq)
  then show ?thesis using assms e by simp
qed

lemma zip_upt: "zip ts [0..<length ts] = map (\<lambda>i. (ts ! i, i)) [0..<length ts]"
proof (induction ts rule: rev_induct)
  case Nil
  show ?case by simp
next
  case (snoc x xs)
  have "map (\<lambda>i. ((xs @ [x]) ! i, i)) [0..<length xs] = map (\<lambda>i. (xs ! i, i)) [0..<length xs]"
    by (rule map_cong) (simp_all add: nth_append)
  then show ?case using snoc by simp
qed

lemma zip_upt_filter:
  "map fst (filter (\<lambda>(t, i). P i) (zip ts [0..<length ts])) = map ((!) ts) (filter P [0..<length ts])"
  by (simp only: zip_upt filter_map map_map) (simp add: comp_def)

subsection \<open>The downsampler\<close>

lemma targetPoints_pos: "0 < n \<Longrightarrow> 0 < targetPoints n"
  by (simp add: targetPoints_def)

lemma targetPoints_le: "targetPoints n \<le> n"
  by (simp add: targetPoints_def)

lemma spec_stride_div:
  "0 < n \<Longrightarrow> spec_stride n = (n + targetPoints n - 1) div targetPoints n"
  by (simp add: spec_stride_def ceil_div_nat targetPoints_pos)

lemma spec_stride_pos: "0 < n \<Longrightarrow> 0 < spec_stride n"
proof -
  assume n: "0 < n"
  have "targetPoints n \<le> n + targetPoints n - 1" using n by simp
  then have "targetPoints n div targetPoints n \<le> (n + targetPoints n - 1) div targetPoints n"
    by (rule div_le_mono)
  then show ?thesis using n targetPoints_pos [of n] by (simp add: spec_stride_div)
qed

lemma interval_stride: "0 < n \<Longrightarrow> interval n = Fin (of_nat (spec_stride n))"
  using targetPoints_pos [of n]
  by (simp add: interval_def spec_stride_div ceil_div_nat)

lemma sampledTimestamps_Nil: "sampledTimestamps [] = []"
  by (simp add: sampledTimestamps_def)

lemma sampledTimestamps_multiples:
  assumes "ts \<noteq> []"
  shows "sampledTimestamps ts =
         map (\<lambda>j. ts ! (j * spec_stride (length ts)))
           [0..<(length ts + spec_stride (length ts) - 1) div spec_stride (length ts)]"
proof -
  let ?k = "spec_stride (length ts)"
  have n: "0 < length ts" using assms by simp
  have k: "0 < ?k" using n by (rule spec_stride_pos)
  have "sampledTimestamps ts = map ((!) ts) (filter (\<lambda>i. i mod ?k = 0) [0..<length ts])"
    using k by (simp add: sampledTimestamps_def interval_stride [OF n] js_mod_nat zip_upt_filter
        del: js_mod.simps)
  then show ?thesis using k by (simp add: multiples_upto comp_def)
qed

lemma count_ceiling:
  "0 < k \<Longrightarrow> (n + k - 1) div k = nat \<lceil>(of_nat n :: rat) / of_nat k\<rceil>"
  by (simp add: ceil_div_nat)

lemma spec_stride_small: "0 < n \<Longrightarrow> n < 30 \<Longrightarrow> spec_stride n = 1"
  by (simp add: spec_stride_def targetPoints_def)

lemma spec_stride_50: "spec_stride 50 = 3"
  by (simp add: spec_stride_div targetPoints_def)

lemma spec_stride_500: "spec_stride 500 = 17"
  by (simp add: spec_stride_div targetPoints_def)

text \<open>
  Claim C2. For every timestamp count the target density is the count itself below 30,
  20 below 100 and 30 otherwise; the stride the code computes is the ceiling of the count
  divided by the target; and the output is the subsequence at the indices \<open>0\<close>,
  \<open>stride\<close>, \<open>2 * stride\<close>, ... below the count. Ten timestamps are all returned; fifty
  give the target 20, the stride 3 and the indices 0, 3, ..., 48; five hundred give the
  target 30, the stride 17 and the indices 0, 17, ..., 493. For no timestamp at all the
  output is empty (the stride is then \<open>NaN\<close>).
\<close>

theorem downsampler_contract:
  "targetPoints n = (if n < 30 then n else if n < 100 then 20 else 30)
   \<and> (ts = [] \<longrightarrow> sampledTimestamps ts = [])
   \<and> (ts \<noteq> [] \<longrightarrow>
        interval (length ts)
          = Fin (of_int \<lceil>(of_nat (length ts) :: rat) / of_nat (targetPoints (length ts))\<rceil>)
        \<and> interval (length ts) = Fin (of_nat (spec_stride (length ts)))
        \<and> sampledTimestamps ts =
            map (\<lambda>j. ts ! (j * spec_stride (length ts)))
              [0..<nat \<lceil>(of_nat (length ts) :: rat) / of_nat (spec_stride (length ts))\<rceil>])
   \<and> (length ts = 10 \<longrightarrow> sampledTimestamps ts = ts)
   \<and> (length ts = 50 \<longrightarrow>
        targetPoints (length ts) = 20 \<and> interval (length ts) = Fin 3
        \<and> sampledTimestamps ts = map (\<lambda>j. ts ! (j * 3)) [0..<17])
   \<and> (length ts = 500 \<longrightarrow>
        targetPoints (length ts) = 30 \<and> interval (length ts) = Fin 17
        \<and> sampledTimestamps ts = map (\<lambda>j. ts ! (j * 17)) [0..<30])"
proof -
  have general: "interval (length ts)
          = Fin (of_int \<lceil>(of_nat (length ts) :: rat) / of_nat (targetPoints (length ts))\<rceil>)
        \<and> interval (length ts) = Fin (of_nat (spec_stride (length ts)))
        \<and> sampledTimestamps ts =
            map (\<lambda>j. ts ! (j * spec_stride (length ts)))
              [0..<nat \<lceil>(of_nat (length ts) :: rat) / of_nat (spec_stride (length ts))\<rceil>]"
    if ne: "ts \<noteq> []"
  proof -
    have n: "0 < length ts" using ne by simp
    have t: "0 < targetPoints (length ts)" using n by (rule targetPoints_pos)
    have a: "interval (length ts)
          = Fin (of_int \<lceil>(of_nat (length ts) :: rat) / of_nat (targetPoints (length ts))\<rceil>)"
      using t by (simp add: interval_def)
    show ?thesis
      using a interval_stride [OF n] sampledTimestamps_multiples [OF ne]
        count_ceiling [OF spec_stride_pos [OF n], of "length ts"]
      by simp
  qed
  have c10: "sampledTimestamps ts = ts" if l: "length ts = 10"
  proof -
    have ne: "ts \<noteq> []" using l by auto
    have "map (\<lambda>j. ts ! j) [0..<length ts] = ts" by (rule map_nth)
    then show ?thesis
      using sampledTimestamps_multiples [OF ne] spec_stride_small [of "length ts"] l by simp
  qed
  have c50: "targetPoints (length ts) = 20 \<and> interval (length ts) = Fin 3
        \<and> sampledTimestamps ts = map (\<lambda>j. ts ! (j * 3)) [0..<17]" if l: "length ts = 50"
  proof -
    have ne: "ts \<noteq> []" using l by auto
    show ?thesis
      using sampledTimestamps_multiples [OF ne] interval_stride [of "length ts"] l
      by (simp add: spec_stride_50 targetPoints_def)
  qed
  have c500: "targetPoints (length ts) = 30 \<and> interval (length ts) = Fin 17
        \<and> sampledTimestamps ts = map (\<lambda>j. ts ! (j * 17)) [0..<30]" if l: "length ts = 500"
  proof -
    have ne: "ts \<noteq> []" using l by auto
    show ?thesis
      using sampledTimestamps_multiples [OF ne] interval_stride [of "length ts"] l
      by (simp add: spec_stride_500 targetPoints_def)
  qed
  have t: "targetPoints n = (if n < 30 then n else if n < 100 then 20 else 30)"
    by (simp add: targetPoints_def)
  have e: "ts = [] \<longrightarrow> sampledTimestamps ts = []"
    by (simp add: sampledTimestamps_Nil)
  show ?thesis
    using t e general c10 c50 c500 by blast
qed

text \<open>The contract at concrete index sequences of 10, 50, 500 and 0 timestamps.\<close>

theorem downsampler_contract_witness:
  "sampledTimestamps [0..<10::nat] = [0..<10]
   \<and> sampledTimestamps [0..<50::nat] = map (\<lambda>j. [0..<50] ! (j * 3)) [0..<17]
   \<and> sampledTimestamps [0..<500::nat] = map (\<lambda>j. [0..<500] ! (j * 17)) [0..<30]
   \<and> sampledTimestamps ([]::nat list) = []"
proof -
  have l: "length [0..<10::nat] = 10" "length [0..<50::nat] = 50" "length [0..<500::nat] = 500"
    by simp_all
  show ?thesis
    using downsampler_contract [of 10 "[0..<10::nat]"] l(1)
      downsampler_contract [of 50 "[0..<50::nat]"] l(2)
      downsampler_contract [of 500 "[0..<500::nat]"] l(3)
      downsampler_contract [of 0 "[]::nat list"]
    by blast
qed

text \<open>
  Claim C7, amended. For every timestamp count of at least one, the downsampler returns a
  non-empty subsequence whose first element is the timestamp at index 0 and whose length
  is at most the ceiling of the count divided by the stride: it is the sequence of the
  timestamps at the multiples of the stride.
\<close>

theorem downsampler_nonempty:
  "ts \<noteq> [] \<Longrightarrow>
     sampledTimestamps ts \<noteq> []
     \<and> hd (sampledTimestamps ts) = ts ! 0
     \<and> interval (length ts) = Fin (of_nat (spec_stride (length ts)))
     \<and> length (sampledTimestamps ts)
         \<le> nat \<lceil>(of_nat (length ts) :: rat) / of_nat (spec_stride (length ts))\<rceil>
     \<and> sampledTimestamps ts
         = map (\<lambda>j. ts ! (j * spec_stride (length ts)))
             [0..<nat \<lceil>(of_nat (length ts) :: rat) / of_nat (spec_stride (length ts))\<rceil>]"
proof -
  assume ne: "ts \<noteq> []"
  let ?k = "spec_stride (length ts)"
  let ?m = "(length ts + ?k - 1) div ?k"
  have n: "0 < length ts" using ne by simp
  have k: "0 < ?k" using n by (rule spec_stride_pos)
  have "?k \<le> length ts + ?k - 1" using n by linarith
  then have "?k div ?k \<le> ?m" by (rule div_le_mono)
  then have m: "0 < ?m" using k by simp
  have s: "sampledTimestamps ts = map (\<lambda>j. ts ! (j * ?k)) [0..<?m]"
    using ne by (rule sampledTimestamps_multiples)
  have h: "hd (map (\<lambda>j. ts ! (j * ?k)) [0..<?m]) = ts ! 0"
    using m by (simp add: hd_map upt_conv_Cons)
  show ?thesis
    using s m h interval_stride [OF n] count_ceiling [OF k, of "length ts"] by simp
qed

text \<open>The amended claim C7 on a timeline of two timestamps.\<close>

theorem downsampler_nonempty_witness:
  "sampledTimestamps [''00:00:00'', ''00:00:05''] \<noteq> []
   \<and> hd (sampledTimestamps [''00:00:00'', ''00:00:05'']) = ''00:00:00''"
proof -
  have ne: "[''00:00:00'', ''00:00:05''] \<noteq> []" by simp
  have "sampledTimestamps [''00:00:00'', ''00:00:05''] \<noteq> []
        \<and> hd (sampledTimestamps [''00:00:00'', ''00:00:05''])
            = [''00:00:00'', ''00:00:05''] ! 0"
    using downsampler_nonempty [OF ne] by blast
  then show ?thesis by simp
qed

text \<open>
  Claim C7 as it is stated fails for the count 0: the subsequence of no timestamps is
  empty.
\<close>

theorem downsampler_empty_counterexample:
  "sampledTimestamps ([] :: string list) = []"
  by (simp add: sampledTimestamps_def)

subsection \<open>The vector chart\<close>

text \<open>
  Claim C5 says that a timeline of exactly one timestamp has its spacing divisor treated
  as 1, so that the horizontal scale is the finite value \<open>1000 / 1\<close>. The code divides
  by \<open>timestamps.length - 1 = 0\<close> first; the quotient \<open>Infinity\<close> is truthy, so the
  alternative \<open>|| 1\<close> is not taken, and the only point gets the x coordinate
  \<open>100 + 0 * Infinity = NaN\<close>.
\<close>

theorem xScale_single_timestamp:
  "xScale 1 = PInf \<and> x_of (xScale 1) 0 = NaN"
  by (simp add: xScale_def js_or_def x_of_def width_def margin_left_def margin_right_def)

subsection \<open>The aggregator\<close>

lemma indexOf_notin: "x \<notin> set xs \<Longrightarrow> indexOf xs x = - 1"
  by (induction xs) (auto simp: Let_def)

lemma indexOf_in: "x \<in> set xs \<Longrightarrow> 0 \<le> indexOf xs x \<and> indexOf xs x < int (length xs)"
  by (induction xs) (auto simp: Let_def)

lemma indexOf_eq_minus1: "indexOf xs x = - 1 \<longleftrightarrow> x \<notin> set xs"
  using indexOf_notin [of x xs] indexOf_in [of x xs] by auto

lemma indexOf_nth: "x \<in> set xs \<Longrightarrow> xs ! nat (indexOf xs x) = x"
proof (induction xs)
  case Nil
  then show ?case by simp
next
  case (Cons y ys)
  show ?case
  proof (cases "y = x")
    case True
    then show ?thesis by simp
  next
    case False
    then have m: "x \<in> set ys" using Cons.prems by simp
    have "0 \<le> indexOf ys x" using indexOf_in [OF m] by simp
    then have "nat (indexOf ys x + 1) = Suc (nat (indexOf ys x))" by simp
    then show ?thesis using False Cons.IH [OF m] indexOf_in [OF m] by (simp add: Let_def)
  qed
qed

lemma js_add_zero_right: "js_add a (Fin 0) = a"
  by (cases a) simp_all

lemma value_at_first:
  "length xs = length ys \<Longrightarrow> x \<in> set xs \<Longrightarrow>
     js_index ys (indexOf xs x) = map_of (zip xs ys) x"
proof (induction xs ys rule: list_induct2)
  case Nil
  then show ?case by simp
next
  case (Cons a xs b ys)
  show ?case
  proof (cases "a = x")
    case True
    then show ?thesis by (simp add: js_index_def)
  next
    case False
    then have m: "x \<in> set xs" using Cons.prems by simp
    have r: "0 \<le> indexOf xs x" "indexOf xs x < int (length xs)" using indexOf_in [OF m] by simp_all
    have "nat (indexOf xs x + 1) = Suc (nat (indexOf xs x))" using r by simp
    then have "js_index (b # ys) (indexOf xs x + 1) = js_index ys (indexOf xs x)"
      using r Cons.hyps by (simp add: js_index_def)
    then show ?thesis using False Cons.IH [OF m] r by (simp add: Let_def)
  qed
qed

lemma value_at_absent: "x \<notin> set xs \<Longrightarrow> map_of (zip xs ys) x = None"
  by (auto simp: map_of_eq_None_iff dest: set_zip_leftD)

lemma value_at_present:
  "length xs = length ys \<Longrightarrow> x \<in> set xs \<Longrightarrow> map_of (zip xs ys) x \<noteq> None"
  by (metis dom_map_of_zip domIff)

lemma term_of_series:
  assumes "series_ok p"
  shows "(if t \<in> set (timestamps p)
          then to_number (js_index (rss p) (indexOf (timestamps p) t)) else Fin 0)
         = spec_contribution t p"
proof (cases "t \<in> set (timestamps p)")
  case True
  have l: "length (timestamps p) = length (rss p)" using assms by (simp add: series_ok_def)
  obtain v where v: "map_of (zip (timestamps p) (rss p)) t = Some v"
    using value_at_present [OF l True] by auto
  show ?thesis
    using True v value_at_first [OF l True]
    by (simp add: spec_contribution_def spec_value_at_def to_number_def)
next
  case False
  then show ?thesis
    by (simp add: spec_contribution_def spec_value_at_def value_at_absent)
qed

lemma fold_filter_zero:
  "foldl (\<lambda>s p. js_add s (f p)) a (filter P xs)
   = foldl js_add a (map (\<lambda>p. if P p then f p else Fin 0) xs)"
  by (induction xs arbitrary: a) (simp_all add: js_add_zero_right)

lemma fold_filter_map_filter:
  "(\<And>p. p \<in> set xs \<Longrightarrow> (P p \<longrightarrow> g p = Some (f p)) \<and> (\<not> P p \<longrightarrow> g p = None)) \<Longrightarrow>
   foldl (\<lambda>s p. js_add s (f p)) a (filter P xs) = foldl js_add a (List.map_filter g xs)"
  by (induction xs arbitrary: a) (auto simp: List.map_filter_simps)

lemma aggregateAt_contributions:
  assumes "list_all series_ok (map snd procs)"
  shows "aggregateAt procs t = js_sum (map (spec_contribution t) (map snd procs))"
proof -
  have "map (\<lambda>p. if t \<in> set (timestamps p)
              then to_number (js_index (rss p) (indexOf (timestamps p) t)) else Fin 0)
          (map snd procs)
        = map (spec_contribution t) (map snd procs)"
    using assms by (intro map_cong refl term_of_series) (auto simp: list_all_iff)
  then show ?thesis
    by (simp only: aggregateAt_def js_sum_def fold_filter_zero)
qed

lemma aggregateAt_present_only:
  assumes "list_all series_ok (map snd procs)"
  shows "aggregateAt procs t
         = js_sum (List.map_filter (\<lambda>p. spec_value_at p t) (map snd procs))"
proof -
  have h: "\<And>p. p \<in> set (map snd procs) \<Longrightarrow>
          (t \<in> set (timestamps p) \<longrightarrow>
             spec_value_at p t
             = Some (to_number (js_index (rss p) (indexOf (timestamps p) t))))
          \<and> (t \<notin> set (timestamps p) \<longrightarrow> spec_value_at p t = None)"
  proof -
    fix p assume "p \<in> set (map snd procs)"
    then have l: "length (timestamps p) = length (rss p)"
      using assms by (auto simp: list_all_iff series_ok_def)
    show "(t \<in> set (timestamps p) \<longrightarrow>
             spec_value_at p t
             = Some (to_number (js_index (rss p) (indexOf (timestamps p) t))))
          \<and> (t \<notin> set (timestamps p) \<longrightarrow> spec_value_at p t = None)"
    proof (cases "t \<in> set (timestamps p)")
      case True
      obtain v where v: "map_of (zip (timestamps p) (rss p)) t = Some v"
        using value_at_present [OF l True] by auto
      show ?thesis using True v value_at_first [OF l True]
        by (simp add: spec_value_at_def to_number_def)
    next
      case False
      then show ?thesis by (simp add: spec_value_at_def value_at_absent)
    qed
  qed
  show ?thesis
    unfolding aggregateAt_def js_sum_def
    by (rule fold_filter_map_filter) (rule h)
qed

lemma example_aggregate:
  "aggregatedRss example_processes [''00:00:00'', ''00:00:05'', ''00:00:10'']
   = [Fin 150, Fin 200, Fin 200]"
  by (simp add: aggregatedRss_def aggregateAt_def example_processes_def js_index_def to_number_def)

text \<open>
  Claim C1. For every Series mapping (each series holding as many values as timestamps)
  and every timestamp, the aggregator returns the sum of the values at that timestamp over
  exactly the series that have an entry there; equivalently every series contributes its
  value there, and zero when it has none. For the series 101-DaemonA with 100, 150, 200
  at 00:00:00, 00:00:05, 00:00:10 and 202-DaemonB with 50, 50 at 00:00:00, 00:00:05 the
  aggregate over the union timeline is 150, 200, 200.
\<close>

theorem aggregator_sum:
  "(list_all series_ok (map snd procs) \<longrightarrow>
      aggregateAt procs t
        = js_sum (List.map_filter (\<lambda>p. spec_value_at p t) (map snd procs))
      \<and> aggregateAt procs t = js_sum (map (spec_contribution t) (map snd procs)))
   \<and> aggregatedRss example_processes [''00:00:00'', ''00:00:05'', ''00:00:10'']
       = [Fin 150, Fin 200, Fin 200]"
  using aggregateAt_present_only [of procs t] aggregateAt_contributions [of procs t]
    example_aggregate
  by blast

text \<open>The aggregate of the example at 00:00:10, where 202-DaemonB has no entry.\<close>

theorem aggregator_sum_witness:
  "list_all series_ok (map snd example_processes)
   \<and> aggregateAt example_processes ''00:00:10''
       = js_sum (map (spec_contribution ''00:00:10'') (map snd example_processes))
   \<and> js_sum (map (spec_contribution ''00:00:10'') (map snd example_processes)) = Fin 200"
proof -
  have ok: "list_all series_ok (map snd example_processes)"
    by (simp add: example_processes_def series_ok_def)
  have v: "js_sum (map (spec_contribution ''00:00:10'') (map snd example_processes)) = Fin 200"
    by (simp add: example_processes_def js_sum_def spec_contribution_def spec_value_at_def)
  show ?thesis
    using ok v aggregator_sum [of example_processes "''00:00:10''"] by blast
qed

subsection \<open>The diagram\<close>

lemma digit_of_digit_char: "d < 10 \<Longrightarrow> digit_of (digit_char d) = d"
proof -
  assume "d < 10"
  then have "d = 0 \<or> d = 1 \<or> d = 2 \<or> d = 3 \<or> d = 4 \<or> d = 5 \<or> d = 6 \<or> d = 7 \<or> d = 8 \<or> d = 9"
    by arith
  then show ?thesis
    by (elim disjE) (simp_all add: digit_of_def digit_char_def)
qed

lemma digits_val_snoc: "digits_val (xs @ [c]) = 10 * digits_val xs + digit_of c"
  by (simp add: digits_val_def)

lemma digits_val_show_nat: "digits_val (show_nat n) = n"
proof (induction n rule: show_nat.induct)
  case (1 n)
  show ?case
  proof (cases "n < 10")
    case True
    then show ?thesis
      by (subst show_nat.simps) (simp add: digits_val_def digit_of_digit_char)
  next
    case False
    have "digits_val (show_nat (n div 10) @ [digit_char (n mod 10)])
          = 10 * (n div 10) + n mod 10"
      using "1.IH" [OF False] by (simp only: digits_val_snoc) (simp add: digit_of_digit_char)
    then show ?thesis using False by (subst show_nat.simps) simp
  qed
qed

lemma show_nat_inj: "show_nat i = show_nat j \<Longrightarrow> i = j"
  by (metis digits_val_show_nat)

lemma node_id_inj: "node_id ck i = node_id ck j \<Longrightarrow> i = j"
  by (simp add: node_id_def show_nat_inj)

lemma agg_id_inj: "agg_id i = agg_id j \<Longrightarrow> i = j"
  by (simp add: agg_id_def show_nat_inj)

lemma collect_no_error:
  "(\<And>x. x \<in> set xs \<Longrightarrow> \<not> isl x) \<Longrightarrow> collect xs = Inr (map projr xs)"
proof (induction xs)
  case Nil
  show ?case by simp
next
  case (Cons x xs)
  have "\<not> isl x" using Cons.prems by simp
  then obtain v where v: "x = Inr v" by (cases x) auto
  have "collect xs = Inr (map projr xs)" using Cons by simp
  then show ?case using v by simp
qed

lemma process_node_no_error:
  assumes "series_ok (snd e)"
  shows "\<not> isl (process_node t i e)"
proof (cases "t \<in> set (timestamps (snd e))")
  case True
  have l: "length (timestamps (snd e)) = length (rss (snd e))"
    using assms by (simp add: series_ok_def)
  have "0 \<le> indexOf (timestamps (snd e)) t" "indexOf (timestamps (snd e)) t < int (length (rss (snd e)))"
    using indexOf_in [OF True] l by simp_all
  then show ?thesis by (simp add: process_node_def js_index_def Let_def)
next
  case False
  then show ?thesis by (simp add: process_node_def indexOf_notin Let_def)
qed

lemma subgraph_of_no_error:
  assumes "list_all series_ok (map snd procs)" and "i < length aggregated"
  shows "\<not> isl (subgraph_of procs aggregated t i)"
proof -
  have "\<And>x. x \<in> set (map (process_node t i) procs) \<Longrightarrow> \<not> isl x"
    using assms(1) process_node_no_error by (auto simp: list_all_iff)
  then have "collect (map (process_node t i) procs)
             = Inr (map projr (map (process_node t i) procs))"
    by (rule collect_no_error)
  then show ?thesis using assms(2) by (simp add: subgraph_of_def js_index_def)
qed

lemma generateMermaidChart_returns:
  assumes "list_all series_ok (map snd procs)"
  shows "\<exists>sgs. generateMermaidChart procs ts =
           Inr \<lparr>subgraphs = sgs,
                processEdges = map (series_edges (sampledTimestamps ts)) procs,
                aggregateEdges = aggregate_edges (sampledTimestamps ts),
                classDefs = [''process'', ''aggregated''],
                classStmts = class_stmts procs (sampledTimestamps ts)\<rparr>"
proof -
  let ?s = "sampledTimestamps ts"
  let ?a = "aggregatedRss procs ?s"
  let ?xs = "map (\<lambda>(timestamp, i). subgraph_of procs ?a timestamp i) (zip ?s [0..<length ?s])"
  have "\<And>x. x \<in> set ?xs \<Longrightarrow> \<not> isl x"
  proof -
    fix x assume "x \<in> set ?xs"
    then obtain t i where x: "x = subgraph_of procs ?a t i" and m: "(t, i) \<in> set (zip ?s [0..<length ?s])"
      by auto
    have "i \<in> set [0..<length ?s]" using m by (rule set_zip_rightD)
    then have "i < length ?a" by (simp add: aggregatedRss_def)
    then show "\<not> isl x" using x subgraph_of_no_error [OF assms] by simp
  qed
  then have "collect ?xs = Inr (map projr ?xs)" by (rule collect_no_error)
  then show ?thesis by (simp add: generateMermaidChart_def Let_def)
qed

lemma series_edges_set:
  "set (series_edges sampled e) =
     {Edge (node_id (cleanKey (fst e)) (j - 1)) (node_id (cleanKey (fst e)) j) | j.
        0 < j \<and> j < length sampled
        \<and> sampled ! (j - 1) \<in> set (timestamps (snd e))
        \<and> sampled ! j \<in> set (timestamps (snd e))}"
  by (auto simp: series_edges_def zip_upt Let_def indexOf_eq_minus1 split: if_splits)

lemma series_edges_iff:
  assumes "0 < i" and "i < length sampled"
  shows "Edge (node_id (cleanKey (fst e)) (i - 1)) (node_id (cleanKey (fst e)) i)
           \<in> set (series_edges sampled e)
         \<longleftrightarrow> sampled ! (i - 1) \<in> set (timestamps (snd e))
             \<and> sampled ! i \<in> set (timestamps (snd e))"
  using assms by (auto simp: series_edges_set dest: node_id_inj)

lemma aggregate_edges_mem:
  assumes "0 < i" and "i < length sampled"
  shows "Edge (agg_id (i - 1)) (agg_id i) \<in> set (aggregate_edges sampled)"
  using assms by (auto simp: aggregate_edges_def)

lemma sampledTimestamps_small:
  assumes "length ts < 30"
  shows "sampledTimestamps ts = ts"
proof (cases "ts = []")
  case True
  then show ?thesis by (simp add: sampledTimestamps_Nil)
next
  case False
  then have n: "0 < length ts" by simp
  have "map (\<lambda>j. ts ! j) [0..<length ts] = ts" by (rule map_nth)
  then show ?thesis
    using sampledTimestamps_multiples [OF False] spec_stride_small [OF n assms] by simp
qed

lemma digit_char_not_underscore: "d < 10 \<Longrightarrow> digit_char d \<noteq> CHR ''_''"
proof -
  assume "d < 10"
  then have "d = 0 \<or> d = 1 \<or> d = 2 \<or> d = 3 \<or> d = 4 \<or> d = 5 \<or> d = 6 \<or> d = 7 \<or> d = 8 \<or> d = 9"
    by arith
  then show ?thesis by (elim disjE) (simp_all add: digit_char_def)
qed

lemma show_nat_no_underscore: "CHR ''_'' \<notin> set (show_nat n)"
proof (induction n rule: show_nat.induct)
  case (1 n)
  show ?case
  proof (cases "n < 10")
    case True
    then show ?thesis
      using digit_char_not_underscore [of n] by (subst show_nat.simps) auto
  next
    case False
    have "n mod 10 < 10" by simp
    then have "digit_char (n mod 10) \<noteq> CHR ''_''" by (rule digit_char_not_underscore)
    then show ?thesis using False "1.IH" [OF False] by (subst show_nat.simps) auto
  qed
qed

lemma split_at_last_separator:
  "c \<notin> set s \<Longrightarrow> c \<notin> set t \<Longrightarrow> a @ c # s = b @ c # t \<Longrightarrow> a = b \<and> s = t"
proof (induction a arbitrary: b)
  case Nil
  then show ?case by (cases b) auto
next
  case (Cons x xs)
  show ?case
  proof (cases b)
    case Nil
    then show ?thesis using Cons.prems by auto
  next
    case (Cons y ys)
    then have "xs @ c # s = ys @ c # t" and "x = y" using Cons.prems by simp_all
    then show ?thesis using Cons.IH [OF Cons.prems(1) Cons.prems(2)] Cons by simp
  qed
qed

lemma node_id_eq: "node_id a i = node_id b j \<Longrightarrow> a = b \<and> i = j"
  using split_at_last_separator [of "CHR ''_''" "show_nat i" "show_nat j" a b]
  by (auto simp: node_id_def show_nat_no_underscore dest: show_nat_inj)

lemma series_edges_other_key:
  assumes "cleanKey (fst e') \<noteq> cleanKey (fst e)"
  shows "Edge (node_id (cleanKey (fst e)) (i - 1)) (node_id (cleanKey (fst e)) i)
           \<notin> set (series_edges sampled e')"
  using assms by (auto simp: series_edges_set dest: node_id_eq)

lemma concat_edges_iff:
  assumes "distinct (map (\<lambda>e. cleanKey (fst e)) procs)" and "k < length procs"
    and "0 < i" and "i < length sampled"
  shows "Edge (node_id (cleanKey (fst (procs ! k))) (i - 1))
              (node_id (cleanKey (fst (procs ! k))) i)
           \<in> set (concat (map (series_edges sampled) procs))
         \<longleftrightarrow> sampled ! (i - 1) \<in> set (timestamps (snd (procs ! k)))
             \<and> sampled ! i \<in> set (timestamps (snd (procs ! k)))"
    (is "?E \<in> _ \<longleftrightarrow> ?both")
proof
  assume "?E \<in> set (concat (map (series_edges sampled) procs))"
  then obtain e' where e': "e' \<in> set procs" "?E \<in> set (series_edges sampled e')" by auto
  then obtain j where j: "j < length procs" "procs ! j = e'" by (auto simp: in_set_conv_nth)
  have "cleanKey (fst e') = cleanKey (fst (procs ! k))"
    using e'(2) series_edges_other_key [of e' "procs ! k" i sampled] by blast
  then have eq: "map (\<lambda>e. cleanKey (fst e)) procs ! j = map (\<lambda>e. cleanKey (fst e)) procs ! k"
    using j assms(2) by simp
  have lj: "j < length (map (\<lambda>e. cleanKey (fst e)) procs)"
    and lk: "k < length (map (\<lambda>e. cleanKey (fst e)) procs)"
    using j(1) assms(2) by simp_all
  have "j = k"
    using nth_eq_iff_index_eq [OF assms(1) lj lk] eq by blast
  then show ?both using e'(2) j(2) series_edges_iff [OF assms(3) assms(4), of "procs ! k"] by simp
next
  assume ?both
  then have "?E \<in> set (series_edges sampled (procs ! k))"
    using series_edges_iff [OF assms(3) assms(4), of "procs ! k"] by simp
  moreover have "procs ! k \<in> set procs" using assms(2) by simp
  ultimately show "?E \<in> set (concat (map (series_edges sampled) procs))" by auto
qed

text \<open>
  Claim C6. In the diagram, for every series and every pair of consecutive sampled
  timestamps (index \<open>i - 1\<close>, index \<open>i\<close>), the edge between the two nodes of the series
  is among the edges emitted for that series if and only if the series has an entry at
  both sampled timestamps, and the series has no other edges than these; when no two keys
  have the same sanitized form, the same holds of the edges emitted for all series
  together. The edge between the aggregate nodes of
  the two indices is emitted for every such pair. The series hold as many values as
  timestamps, so that the chart is produced.
\<close>

theorem sequential_edges:
  assumes "list_all series_ok (map snd procs)"
    and "k < length procs"
    and "0 < i"
    and "i < length (sampledTimestamps ts)"
  shows "\<exists>chart. generateMermaidChart procs ts = Inr chart
     \<and> (Edge (node_id (cleanKey (fst (procs ! k))) (i - 1))
              (node_id (cleanKey (fst (procs ! k))) i) \<in> set (processEdges chart ! k)
         \<longleftrightarrow> sampledTimestamps ts ! (i - 1) \<in> set (timestamps (snd (procs ! k)))
             \<and> sampledTimestamps ts ! i \<in> set (timestamps (snd (procs ! k))))
     \<and> set (processEdges chart ! k)
         = {Edge (node_id (cleanKey (fst (procs ! k))) (j - 1))
                 (node_id (cleanKey (fst (procs ! k))) j) | j.
              0 < j \<and> j < length (sampledTimestamps ts)
              \<and> sampledTimestamps ts ! (j - 1) \<in> set (timestamps (snd (procs ! k)))
              \<and> sampledTimestamps ts ! j \<in> set (timestamps (snd (procs ! k)))}
     \<and> (distinct (map (\<lambda>e. cleanKey (fst e)) procs) \<longrightarrow>
          (Edge (node_id (cleanKey (fst (procs ! k))) (i - 1))
                (node_id (cleanKey (fst (procs ! k))) i) \<in> set (concat (processEdges chart))
           \<longleftrightarrow> sampledTimestamps ts ! (i - 1) \<in> set (timestamps (snd (procs ! k)))
               \<and> sampledTimestamps ts ! i \<in> set (timestamps (snd (procs ! k)))))
     \<and> Edge (agg_id (i - 1)) (agg_id i) \<in> set (aggregateEdges chart)"
proof -
  obtain sgs where c: "generateMermaidChart procs ts =
           Inr \<lparr>subgraphs = sgs,
                processEdges = map (series_edges (sampledTimestamps ts)) procs,
                aggregateEdges = aggregate_edges (sampledTimestamps ts),
                classDefs = [''process'', ''aggregated''],
                classStmts = class_stmts procs (sampledTimestamps ts)\<rparr>"
    using generateMermaidChart_returns [OF assms(1)] by blast
  have own: "Edge (node_id (cleanKey (fst (procs ! k))) (i - 1))
              (node_id (cleanKey (fst (procs ! k))) i)
               \<in> set (map (series_edges (sampledTimestamps ts)) procs ! k)
         \<longleftrightarrow> sampledTimestamps ts ! (i - 1) \<in> set (timestamps (snd (procs ! k)))
             \<and> sampledTimestamps ts ! i \<in> set (timestamps (snd (procs ! k)))"
    using assms(2) series_edges_iff [OF assms(3) assms(4), of "procs ! k"] by simp
  have all: "Edge (node_id (cleanKey (fst (procs ! k))) (i - 1))
                (node_id (cleanKey (fst (procs ! k))) i)
               \<in> set (concat (map (series_edges (sampledTimestamps ts)) procs))
           \<longleftrightarrow> sampledTimestamps ts ! (i - 1) \<in> set (timestamps (snd (procs ! k)))
               \<and> sampledTimestamps ts ! i \<in> set (timestamps (snd (procs ! k)))"
    if "distinct (map (\<lambda>e. cleanKey (fst e)) procs)"
    using that assms(2) assms(3) assms(4) by (rule concat_edges_iff)
  have whole: "set (map (series_edges (sampledTimestamps ts)) procs ! k)
         = {Edge (node_id (cleanKey (fst (procs ! k))) (j - 1))
                 (node_id (cleanKey (fst (procs ! k))) j) | j.
              0 < j \<and> j < length (sampledTimestamps ts)
              \<and> sampledTimestamps ts ! (j - 1) \<in> set (timestamps (snd (procs ! k)))
              \<and> sampledTimestamps ts ! j \<in> set (timestamps (snd (procs ! k)))}"
    using assms(2) by (simp add: series_edges_set)
  show ?thesis
    using own all whole aggregate_edges_mem [OF assms(3) assms(4)]
    by (simp only: c MermaidChart.simps sum.inject simp_thms ex_simps) blast
qed

text \<open>
  In the example 202-DaemonB has no entry at the third timestamp: no edge joins its nodes
  of the indices 1 and 2, the aggregate nodes of these indices are joined.
\<close>

theorem sequential_edges_witness:
  "\<exists>chart. generateMermaidChart example_processes [''00:00:00'', ''00:00:05'', ''00:00:10'']
        = Inr chart
     \<and> Edge ''202_DaemonB_1'' ''202_DaemonB_2'' \<notin> set (processEdges chart ! 1)
     \<and> Edge ''202_DaemonB_1'' ''202_DaemonB_2'' \<notin> set (concat (processEdges chart))
     \<and> Edge ''Agg_1'' ''Agg_2'' \<in> set (aggregateEdges chart)"
proof -
  let ?ts = "[''00:00:00'', ''00:00:05'', ''00:00:10'']"
  have s: "sampledTimestamps ?ts = ?ts" by (rule sampledTimestamps_small) simp
  have ok: "list_all series_ok (map snd example_processes)"
    by (simp add: example_processes_def series_ok_def)
  have k: "(1::nat) < length example_processes" by (simp add: example_processes_def)
  have i: "(2::nat) < length (sampledTimestamps ?ts)" by (simp add: s)
  have ids: "node_id (cleanKey (fst (example_processes ! 1))) (2 - 1) = ''202_DaemonB_1''"
    "node_id (cleanKey (fst (example_processes ! 1))) 2 = ''202_DaemonB_2''"
    "agg_id (2 - 1) = ''Agg_1''" "agg_id 2 = ''Agg_2''"
    by (simp_all add: example_processes_def node_id_def agg_id_def cleanKey_def is_alnum_def
        show_nat.simps digit_char_def)
  have absent: "\<not> (sampledTimestamps ?ts ! (2 - 1) \<in> set (timestamps (snd (example_processes ! 1)))
        \<and> sampledTimestamps ?ts ! 2 \<in> set (timestamps (snd (example_processes ! 1))))"
    by (simp add: s example_processes_def)
  have dk: "distinct (map (\<lambda>e. cleanKey (fst e)) example_processes)"
    by (simp add: example_processes_def cleanKey_def is_alnum_def)
  show ?thesis
    using sequential_edges [OF ok k _ i] ids absent dk by auto
qed

text \<open>
  Claim C9 says that every process node of the subgraphs (the sanitized key followed by
  the index of its timestamp) receives the process style class. The class statement the
  code emits for a series names the sanitized key alone, which is the identifier of no
  node of that series; only the aggregate nodes are named by their class statements.
  For one series with one sample:
\<close>

theorem process_class_misses_nodes:
  "generateMermaidChart
     [(''101-DaemonA'', \<lparr>timestamps = [''00:00:00''], rss = [Fin 100]\<rparr>)] [''00:00:00'']
   = Inr \<lparr>subgraphs =
            [\<lparr>sg_id = ''T0'', sg_title = ''00:00:00'',
              sg_nodes = [Node ''101_DaemonA_0'' ''101-DaemonA'' (Fin 100),
                          Node ''Agg_0'' ''Aggregated'' (Fin 100)]\<rparr>],
          processEdges = [[]],
          aggregateEdges = [],
          classDefs = [''process'', ''aggregated''],
          classStmts = [ClassStmt ''101_DaemonA'' ''process'',
                        ClassStmt ''Agg_0'' ''aggregated'']\<rparr>"
proof -
  have s: "sampledTimestamps [''00:00:00''] = [''00:00:00'']"
    by (rule sampledTimestamps_small) simp
  show ?thesis
    by (simp add: generateMermaidChart_def s aggregatedRss_def aggregateAt_def subgraph_of_def
        process_node_def js_index_def to_number_def series_edges_def aggregate_edges_def
        class_stmts_def node_id_def agg_id_def cleanKey_def is_alnum_def show_nat.simps
        digit_char_def)
qed

lemma class_statement_names_no_node_of_series:
  "cleanKey key \<noteq> node_id (cleanKey key) i"
  by (simp add: node_id_def)

subsection \<open>The log parser\<close>

lemmas parse_eval =
  parseLogFile_def parse_lines_def parse_line_def js_trim_def is_ws_def
  parseFloat_def is_digit_def digits_val_def digit_of_def exponent_of_def map_has_def
  map_modify_def set_add_def Let_def

lemma malformed_log_parsed:
  "parseLogFile malformed_log =
     ([(''101-DaemonA'',
        \<lparr>timestamps = [''00:00:00'', ''00:00:10''], rss = [Fin 100, Fin (401 / 2)]\<rparr>)],
      [''00:00:00'', ''00:00:10''])"
  by (simp add: malformed_log_def parse_eval)

lemma parse_line_discards: "\<not> six_fields line \<Longrightarrow> parse_line st line = st"
  by (simp add: parse_line_def six_fields_def)

lemma foldl_parse_line_filter:
  "foldl parse_line st (filter six_fields ls) = foldl parse_line st ls"
  by (induction ls arbitrary: st) (simp_all add: parse_line_discards)

lemma parse_lines_filter: "parse_lines (filter six_fields ls) = parse_lines ls"
  by (simp add: parse_lines_def foldl_parse_line_filter)

lemma js_split_first_line:
  "c \<notin> set h \<Longrightarrow> js_split c (h @ c # rest) = h # js_split c rest"
  by (induction h) (auto simp: Let_def)

lemma parseLogFile_skips_headers:
  assumes "CHR 0x0A \<notin> set h1" and "CHR 0x0A \<notin> set h2"
  shows "parseLogFile (h1 @ [CHR 0x0A] @ h2 @ [CHR 0x0A] @ body)
         = parse_lines (js_split CHR 0x0A body)"
  using assms by (simp add: parseLogFile_def js_split_first_line)

lemma map_of_map_set: "map_of (map_set m k v) = (map_of m)(k \<mapsto> v)"
  by (induction m) (auto simp: fun_eq_iff)

lemma parse_line_captures:
  assumes "six_fields line" and "sample_of line = (t, key, v)"
  shows "map_of (fst (parse_line st line)) key
           = Some \<lparr>timestamps = timestamps (series_before (fst st) key) @ [t],
                   rss = rss (series_before (fst st) key) @ [v]\<rparr>
         \<and> t \<in> set (snd (parse_line st line))"
proof -
  have l: "length (js_split CHR ''|'' (js_trim line)) = 6"
    using assms(1) by (simp add: six_fields_def)
  have k: "key = js_trim (js_split CHR ''|'' (js_trim line) ! 1) @ ''-''
                 @ js_trim (js_split CHR ''|'' (js_trim line) ! 2)"
    and t: "t = js_trim (js_split CHR ''|'' (js_trim line) ! 0)"
    and v: "v = parseFloat (js_replace ''MB'' [] (js_trim (js_split CHR ''|'' (js_trim line) ! 5)))"
    using assms(2) l by (simp_all add: sample_of_def Let_def)
  show ?thesis
    using l
    by (auto simp: parse_line_def Let_def map_has_def map_modify_def map_of_map_set
        series_before_def set_add_def k t v split: option.splits)
qed

lemma parse_line_other:
  assumes "six_fields line" and "sample_of line = (t, key, v)" and "k \<noteq> key"
  shows "map_of (fst (parse_line st line)) k = map_of (fst st) k"
proof -
  have l: "length (js_split CHR ''|'' (js_trim line)) = 6"
    using assms(1) by (simp add: six_fields_def)
  have key: "key = js_trim (js_split CHR ''|'' (js_trim line) ! 1) @ ''-''
                 @ js_trim (js_split CHR ''|'' (js_trim line) ! 2)"
    using assms(2) l by (simp add: sample_of_def Let_def)
  show ?thesis
    using l assms(3)
    by (auto simp: parse_line_def Let_def map_has_def map_modify_def map_of_map_set key
        split: option.splits)
qed

text \<open>
  Claim C3. For every log text the parser skips the first two lines whatever they hold,
  splits each remaining line on the pipe and discards, without any effect, every line
  that does not split into exactly six fields: the result is that of the six-field lines
  alone. A six-field line is captured (its timestamp and value are appended to the series
  of its key, the series of the other keys are left as they are) whatever precedes it,
  so the lines before and after a discarded line are captured; in the example log the five-field line at 00:00:05 is dropped and the samples
  at 00:00:00 and 00:00:10 are kept. \<open>parseLogFile\<close> has no failing branch: the model
  is a total function without an error value, as no operation of the source can throw.
\<close>

theorem parser_skips_and_discards:
  "(CHR 0x0A \<notin> set h1 \<and> CHR 0x0A \<notin> set h2 \<longrightarrow>
      parseLogFile (h1 @ [CHR 0x0A] @ h2 @ [CHR 0x0A] @ body)
        = parse_lines (js_split CHR 0x0A body))
   \<and> parseLogFile text
        = parse_lines (filter six_fields (drop 2 (js_split CHR 0x0A text)))
   \<and> (\<not> six_fields bad \<longrightarrow>
        parse_line st bad = st
        \<and> parse_lines (pre @ [before, bad, after] @ post)
            = parse_lines (pre @ [before, after] @ post))
   \<and> (six_fields line \<and> sample_of line = (t, key, v) \<longrightarrow>
        map_of (fst (parse_line st line)) key
          = Some \<lparr>timestamps = timestamps (series_before (fst st) key) @ [t],
                  rss = rss (series_before (fst st) key) @ [v]\<rparr>
        \<and> t \<in> set (snd (parse_line st line))
        \<and> (k \<noteq> key \<longrightarrow> map_of (fst (parse_line st line)) k = map_of (fst st) k))
   \<and> parseLogFile malformed_log =
        ([(''101-DaemonA'',
           \<lparr>timestamps = [''00:00:00'', ''00:00:10''], rss = [Fin 100, Fin (401 / 2)]\<rparr>)],
         [''00:00:00'', ''00:00:10''])"
proof -
  have a: "parseLogFile text
        = parse_lines (filter six_fields (drop 2 (js_split CHR 0x0A text)))"
    by (simp only: parseLogFile_def parse_lines_filter)
  have b: "parse_lines (pre @ [before, bad, after] @ post)
            = parse_lines (pre @ [before, after] @ post)" if "\<not> six_fields bad"
  proof -
    have "filter six_fields (pre @ [before, bad, after] @ post)
          = filter six_fields (pre @ [before, after] @ post)"
      using that by simp
    then show ?thesis
      using parse_lines_filter [of "pre @ [before, bad, after] @ post"]
        parse_lines_filter [of "pre @ [before, after] @ post"] by simp
  qed
  show ?thesis
    using a b parseLogFile_skips_headers [of h1 h2 body] parse_line_discards [of bad st]
      parse_line_captures [of line t key v st] parse_line_other [of line t key v k st]
      malformed_log_parsed
    by blast
qed

text \<open>
  The third line of the example log is parsed (only two are skipped), its sample is
  captured, and the five-field line changes nothing.
\<close>

theorem parser_skips_and_discards_witness:
  "\<not> six_fields ''00:00:05 | 101 | DaemonA | 10.0MB | 150.0MB''
   \<and> parse_line ([], []) ''00:00:05 | 101 | DaemonA | 10.0MB | 150.0MB'' = ([], [])
   \<and> six_fields ''00:00:00 | 101 | DaemonA | 10.0MB | 20.0MB | 100.0MB''
   \<and> map_of (fst (parse_line ([], []) ''00:00:00 | 101 | DaemonA | 10.0MB | 20.0MB | 100.0MB''))
        ''101-DaemonA''
       = Some \<lparr>timestamps = [''00:00:00''], rss = [Fin 100]\<rparr>
   \<and> parseLogFile (''header'' @ [CHR 0x0A] @ ''columns'' @ [CHR 0x0A] @ ''x|y'')
       = parse_lines [''x|y'']"
proof -
  have n: "\<not> six_fields ''00:00:05 | 101 | DaemonA | 10.0MB | 150.0MB''"
    by (simp add: six_fields_def js_trim_def is_ws_def)
  have y: "six_fields ''00:00:00 | 101 | DaemonA | 10.0MB | 20.0MB | 100.0MB''"
    by (simp add: six_fields_def js_trim_def is_ws_def)
  have s: "sample_of ''00:00:00 | 101 | DaemonA | 10.0MB | 20.0MB | 100.0MB''
           = (''00:00:00'', ''101-DaemonA'', Fin 100)"
    by (simp add: sample_of_def parse_eval)
  have h: "CHR 0x0A \<notin> set ''header'' \<and> CHR 0x0A \<notin> set ''columns''" by simp
  have l: "js_split CHR 0x0A ''x|y'' = [''x|y'']" by simp
  have e: "series_before (fst (([], []) :: processes \<times> string list)) ''101-DaemonA''
           = \<lparr>timestamps = [], rss = []\<rparr>"
    by (simp add: series_before_def)
  show ?thesis
    using n y s h l e
      parser_skips_and_discards [of "''header''" "''columns''" "''x|y''" "[]"
        "''00:00:05 | 101 | DaemonA | 10.0MB | 150.0MB''" "([], [])" "[]" "[]" "[]" "[]"
        "''00:00:00 | 101 | DaemonA | 10.0MB | 20.0MB | 100.0MB''"
        "''00:00:00''" "''101-DaemonA''" "Fin 100"]
    by simp
qed

lemma js_split_nonempty: "js_split c l \<noteq> []"
  by (cases l) (simp_all add: Let_def)

lemma js_split_ltrim:
  "\<not> is_ws c \<Longrightarrow>
     js_split c (dropWhile is_ws l) = dropWhile is_ws (hd (js_split c l)) # tl (js_split c l)"
proof (induction l)
  case Nil
  show ?case by simp
next
  case (Cons x xs)
  show ?case
  proof (cases "is_ws x")
    case True
    then have "x \<noteq> c" using Cons.prems by auto
    then show ?thesis using True Cons by (simp add: Let_def)
  next
    case False
    then show ?thesis by (simp add: Let_def)
  qed
qed

lemma js_split_snoc:
  "js_split c (xs @ [x]) =
     (if x = c then js_split c xs @ [[]]
      else butlast (js_split c xs) @ [last (js_split c xs) @ [x]])"
proof (induction xs)
  case Nil
  show ?case by (simp add: Let_def)
next
  case (Cons y ys)
  have ne: "js_split c ys \<noteq> []" by (rule js_split_nonempty)
  have ne2: "js_split c (ys @ [x]) \<noteq> []" by (rule js_split_nonempty)
  show ?case
  proof (cases "y = c")
    case True
    then show ?thesis using Cons ne by (simp add: Let_def)
  next
    case False
    show ?thesis
    proof (cases "tl (js_split c ys) = []")
      case True
      then obtain w where w: "js_split c ys = [w]" using ne by (cases "js_split c ys") auto
      show ?thesis using False Cons w by (simp add: Let_def)
    next
      case F2: False
      then obtain w ws where w: "js_split c ys = w # ws" "ws \<noteq> []"
        using ne by (cases "js_split c ys") auto
      show ?thesis using False Cons w by (simp add: Let_def)
    qed
  qed
qed

lemma js_split_rev: "js_split c (rev l) = rev (map rev (js_split c l))"
proof (induction l)
  case Nil
  show ?case by simp
next
  case (Cons y ys)
  obtain w ws where w: "js_split c ys = w # ws"
    using js_split_nonempty [of c ys] by (cases "js_split c ys") auto
  show ?case using Cons w by (simp add: js_split_snoc Let_def)
qed

lemma js_split_rtrim:
  assumes "\<not> is_ws c"
  shows "js_split c (rev (dropWhile is_ws (rev l)))
         = butlast (js_split c l) @ [rev (dropWhile is_ws (rev (last (js_split c l))))]"
proof -
  obtain us u where u: "js_split c l = us @ [u]"
    using js_split_nonempty [of c l] by (metis append_butlast_last_id)
  have "js_split c (rev l) = rev u # rev (map rev us)"
    by (simp add: js_split_rev u)
  then have "js_split c (dropWhile is_ws (rev l)) = dropWhile is_ws (rev u) # rev (map rev us)"
    using js_split_ltrim [OF assms, of "rev l"] by simp
  then show ?thesis by (simp add: js_split_rev [of c "dropWhile is_ws (rev l)"] u rev_map)
qed

lemma js_split_trim:
  assumes "\<not> is_ws c" and "js_split c l = [f0, f1, f2, f3, f4, f5]"
  shows "js_split c (js_trim l)
         = [dropWhile is_ws f0, f1, f2, f3, f4, rev (dropWhile is_ws (rev f5))]"
proof -
  have "js_split c (dropWhile is_ws l) = [dropWhile is_ws f0, f1, f2, f3, f4, f5]"
    using js_split_ltrim [OF assms(1), of l] assms(2) by simp
  then show ?thesis
    using js_split_rtrim [OF assms(1), of "dropWhile is_ws l"] by (simp add: js_trim_def)
qed

lemma length_six:
  assumes "length p = 6"
  obtains f0 f1 f2 f3 f4 f5 where "p = [f0, f1, f2, f3, f4, f5]"
proof -
  have "p = [p ! 0, p ! 1, p ! 2, p ! 3, p ! 4, p ! 5]"
    using assms by (intro nth_equalityI) (auto simp: nth_Cons' less_Suc_eq numeral_eq_Suc)
  then show ?thesis using that by blast
qed

lemma pipe_not_ws: "\<not> is_ws CHR ''|''"
  by (simp add: is_ws_def)

lemma parse_line_heap_variant:
  assumes "heap_variant l l'"
  shows "parse_line st l = parse_line st l'"
proof -
  have lp: "length (js_split CHR ''|'' l) = 6" and lq: "length (js_split CHR ''|'' l') = 6"
    using assms by (simp_all add: heap_variant_def Let_def)
  obtain f0 f1 f2 f3 f4 f5 where p: "js_split CHR ''|'' l = [f0, f1, f2, f3, f4, f5]"
    using lp by (rule length_six)
  obtain g0 g1 g2 g3 g4 g5 where q: "js_split CHR ''|'' l' = [g0, g1, g2, g3, g4, g5]"
    using lq by (rule length_six)
  have e: "f0 = g0" "f1 = g1" "f2 = g2" "f5 = g5"
    using assms p q by (simp_all add: heap_variant_def)
  show ?thesis
    by (simp add: parse_line_def js_split_trim [OF pipe_not_ws p] js_split_trim [OF pipe_not_ws q] e)
qed

lemma foldl_parse_line_variant:
  "list_all2 (\<lambda>l l'. l = l' \<or> heap_variant l l') ls ls' \<Longrightarrow>
     foldl parse_line st ls = foldl parse_line st ls'"
proof (induction ls ls' arbitrary: st rule: list_all2_induct)
  case Nil
  show ?case by simp
next
  case (Cons l ls l' ls')
  have "parse_line st l = parse_line st l'"
    using Cons.hyps(1) parse_line_heap_variant by blast
  then show ?case using Cons.IH by simp
qed

lemma parseLogFile_heap_variant:
  assumes "same_but_heap text text'"
  shows "parseLogFile text = parseLogFile text'"
proof -
  have "list_all2 (\<lambda>l l'. l = l' \<or> heap_variant l l')
          (drop 2 (js_split CHR 0x0A text)) (drop 2 (js_split CHR 0x0A text'))"
    using assms unfolding same_but_heap_def by (rule list_all2_dropI)
  then show ?thesis
    by (simp add: parseLogFile_def parse_lines_def foldl_parse_line_variant)
qed

text \<open>
  Claim C10. Two log texts with the same lines, except that lines splitting into exactly
  six fields may differ in the contents of their fourth and fifth field (the used and the
  capacity of the heap), are parsed to the same series and timeline; hence the diagram,
  the vector chart and the summary statistics computed from them are the same, as is the
  result of every function of the parser's output.
\<close>

theorem heap_fields_ignored:
  assumes "same_but_heap text text'"
  shows "parseLogFile text = parseLogFile text'
     \<and> generateMermaidChart (fst (parseLogFile text)) (snd (parseLogFile text))
         = generateMermaidChart (fst (parseLogFile text')) (snd (parseLogFile text'))
     \<and> generateSvg (fst (parseLogFile text)) (snd (parseLogFile text))
         = generateSvg (fst (parseLogFile text')) (snd (parseLogFile text'))
     \<and> composeSummary (fst (parseLogFile text)) (snd (parseLogFile text))
         = composeSummary (fst (parseLogFile text')) (snd (parseLogFile text'))
     \<and> run text = run text'
     \<and> render (parseLogFile text) = render (parseLogFile text')"
  using parseLogFile_heap_variant [OF assms] by (simp add: run_def)

text \<open>Two logs of one sample that differ in both heap fields.\<close>

theorem heap_fields_ignored_witness:
  "same_but_heap heap_example_a heap_example_b
   \<and> heap_example_a \<noteq> heap_example_b
   \<and> parseLogFile heap_example_a = parseLogFile heap_example_b
   \<and> run heap_example_a = run heap_example_b"
proof -
  have h: "same_but_heap heap_example_a heap_example_b"
    by (simp add: same_but_heap_def heap_variant_def heap_example_a_def heap_example_b_def Let_def)
  have d: "heap_example_a \<noteq> heap_example_b"
    by (simp add: heap_example_a_def heap_example_b_def)
  show ?thesis
    using h d heap_fields_ignored [OF h] by blast
qed

subsection \<open>The series invariant of the parser's output\<close>

lemma map_set_keys:
  "map fst (map_set m k v) = (if k \<in> set (map fst m) then map fst m else map fst m @ [k])"
  by (induction m) force+

lemma map_modify_keys: "map fst (map_modify m k f) = map fst m"
proof (cases "map_of m k")
  case None
  then show ?thesis by (simp add: map_modify_def)
next
  case (Some d)
  then have "k \<in> set (map fst m)" by (metis map_of_eq_None_iff option.distinct(1) set_map)
  then show ?thesis using Some by (simp add: map_modify_def map_set_keys)
qed

lemma parse_line_distinct:
  "distinct (map fst (fst st)) \<Longrightarrow> distinct (map fst (fst (parse_line st line)))"
  by (auto simp: parse_line_def Let_def map_modify_keys map_set_keys map_has_def
      map_of_eq_None_iff)

lemma series_ok_lookup:
  assumes "distinct (map fst m)"
  shows "list_all series_ok (map snd m) \<longleftrightarrow> (\<forall>k d. map_of m k = Some d \<longrightarrow> series_ok d)"
proof
  assume a: "list_all series_ok (map snd m)"
  show "\<forall>k d. map_of m k = Some d \<longrightarrow> series_ok d"
  proof (intro allI impI)
    fix k d assume "map_of m k = Some d"
    then have "(k, d) \<in> set m" by (rule map_of_SomeD)
    then show "series_ok d" using a by (auto simp: list_all_iff)
  qed
next
  assume b: "\<forall>k d. map_of m k = Some d \<longrightarrow> series_ok d"
  show "list_all series_ok (map snd m)"
  proof (clarsimp simp: list_all_iff)
    fix k d assume "(k, d) \<in> set m"
    then have "map_of m k = Some d" using assms by simp
    then show "series_ok d" using b by blast
  qed
qed

lemma parse_line_ok:
  assumes "parser_state_ok st"
  shows "parser_state_ok (parse_line st line)"
proof (cases "six_fields line")
  case False
  then show ?thesis using assms by (simp add: parse_line_discards)
next
  case True
  obtain t key v where s: "sample_of line = (t, key, v)" by (cases "sample_of line") auto
  have d: "distinct (map fst (fst st))" using assms by (simp add: parser_state_ok_def)
  have d': "distinct (map fst (fst (parse_line st line)))" using d by (rule parse_line_distinct)
  have old: "\<forall>k d. map_of (fst st) k = Some d \<longrightarrow> series_ok d"
    using assms series_ok_lookup [OF d] by (simp add: parser_state_ok_def)
  have "series_ok (series_before (fst st) key)"
    using old by (auto simp: series_before_def series_ok_def split: option.splits)
  then have new: "series_ok \<lparr>timestamps = timestamps (series_before (fst st) key) @ [t],
                             rss = rss (series_before (fst st) key) @ [v]\<rparr>"
    by (simp add: series_ok_def)
  have "\<forall>k d. map_of (fst (parse_line st line)) k = Some d \<longrightarrow> series_ok d"
  proof (intro allI impI)
    fix k d assume m: "map_of (fst (parse_line st line)) k = Some d"
    show "series_ok d"
    proof (cases "k = key")
      case True
      then show ?thesis using m new parse_line_captures [OF \<open>six_fields line\<close> s, of st] by simp
    next
      case False
      then show ?thesis using m old parse_line_other [OF \<open>six_fields line\<close> s, of k st] by simp
    qed
  qed
  then show ?thesis using d' series_ok_lookup [OF d'] by (simp add: parser_state_ok_def)
qed

lemma foldl_parse_line_ok:
  "parser_state_ok st \<Longrightarrow> parser_state_ok (foldl parse_line st ls)"
  by (induction ls arbitrary: st) (simp_all add: parse_line_ok)

lemma parsed_series_ok: "list_all series_ok (map snd (fst (parseLogFile text)))"
proof -
  have "parser_state_ok ([], [])" by (simp add: parser_state_ok_def)
  then have "parser_state_ok (foldl parse_line ([], []) (drop 2 (js_split CHR 0x0A text)))"
    by (rule foldl_parse_line_ok)
  then show ?thesis by (simp add: parseLogFile_def parse_lines_def parser_state_ok_def Let_def)
qed

text \<open>
  Hence the hypothesis of the theorems above holds for every log: the aggregate of any
  parsed log is the sum of the contributions of its series, and the diagram of a parsed
  log is always produced.
\<close>

lemma parsed_aggregate:
  "aggregateAt (fst (parseLogFile text)) t
   = js_sum (map (spec_contribution t) (map snd (fst (parseLogFile text))))"
  using parsed_series_ok by (rule aggregateAt_contributions)

lemma parsed_diagram_returns:
  "\<exists>chart. generateMermaidChart (fst (parseLogFile text)) ts = Inr chart"
  using generateMermaidChart_returns [OF parsed_series_ok] by blast

subsection \<open>A log without samples\<close>

lemma parse_lines_blank: "parse_lines [[]] = ([], [])"
  by (simp add: parse_lines_def parse_line_def js_trim_def)

lemma parse_lines_none: "parse_lines [] = ([], [])"
  by (simp add: parse_lines_def)

lemma headers_only_parsed:
  assumes "CHR 0x0A \<notin> set h1" and "CHR 0x0A \<notin> set h2"
  shows "parseLogFile (h1 @ [CHR 0x0A] @ h2 @ [CHR 0x0A]) = ([], [])"
    and "parseLogFile (h1 @ [CHR 0x0A] @ h2) = ([], [])"
proof -
  show "parseLogFile (h1 @ [CHR 0x0A] @ h2 @ [CHR 0x0A]) = ([], [])"
    using parseLogFile_skips_headers [OF assms, of "[]"] by (simp add: parse_lines_blank)
  have "js_split CHR 0x0A (h1 @ CHR 0x0A # h2) = h1 # js_split CHR 0x0A h2"
    using assms(1) by (rule js_split_first_line)
  moreover have "length (js_split CHR 0x0A h2) = 1"
    using assms(2) by (induction h2) (auto simp: Let_def)
  ultimately show "parseLogFile (h1 @ [CHR 0x0A] @ h2) = ([], [])"
    by (simp add: parseLogFile_def parse_lines_none)
qed

lemma label_loop_none: "label_loop 0 0 0 [] = Some []"
  by (subst label_loop.simps) simp

lemma generateMermaidChart_no_samples:
  "generateMermaidChart [] [] =
     Inr \<lparr>subgraphs = [], processEdges = [], aggregateEdges = [],
          classDefs = [''process'', ''aggregated''], classStmts = []\<rparr>"
  by (simp add: generateMermaidChart_def sampledTimestamps_Nil aggregatedRss_def
      aggregate_edges_def class_stmts_def)

lemma generateSvg_no_samples:
  "\<exists>svg. generateSvg [] [] = Some svg
     \<and> svg_gridlines svg = [] \<and> svg_yLabels svg = [] \<and> svg_xLabels svg = []
     \<and> svg_polylines svg = [] \<and> svg_aggregatedPoints svg = []"
proof -
  have y: "yAxisMaxOf (maxRssOf [] []) = NInf"
    by (simp add: yAxisMaxOf_def maxRssOf_def Math_max_def aggregatedRss_def)
  have g: "grid_loop NInf 0 [] = Some []" by (subst grid_loop.simps) simp
  show ?thesis
    by (simp add: generateSvg_def y g label_loop_none aggregatedRss_def)
qed

lemma composeSummary_no_samples:
  "\<exists>summary. composeSummary [] [] = Inr summary
     \<and> s_processCount summary = 0 \<and> s_duration summary = ''N/A'' \<and> s_details summary = []"
  by (simp add: composeSummary_def duration_of_def)

lemma pipeline_reads_no_samples: "pipeline_reads [] [] = []"
  by (simp add: pipeline_reads_def mermaid_reads_def svg_reads_def summary_reads_def
      sampledTimestamps_Nil label_loop_none)

text \<open>
  The listed reads on the example of the specification are all inside their arrays; a
  series with fewer values than timestamps is read outside.
\<close>

lemma example_reads:
  "mermaid_reads example_processes [''00:00:00'', ''00:00:05'', ''00:00:10'']
     = [(0, 3), (0, 2), (1, 3), (1, 2), (2, 3), (0, 3), (0, 2), (0, 3), (1, 3),
        (1, 2), (1, 3), (2, 3), (2, 3), (0, 3), (1, 3), (0, 3), (1, 3)]"
  "summary_reads example_processes [''00:00:00'', ''00:00:05'', ''00:00:10'']
     = [(0, 3), (2, 3), (2, 3), (1, 2)]"
  "svg_reads example_processes [''00:00:00'']
     = [(0, 3), (0, 2), (0, 1), (0, 3), (1, 3), (2, 3), (0, 6), (0, 6), (0, 2), (1, 2),
        (1, 6), (1, 6), (0, 1)]"
proof -
  have s: "sampledTimestamps [''00:00:00'', ''00:00:05'', ''00:00:10'']
           = [''00:00:00'', ''00:00:05'', ''00:00:10'']"
    by (rule sampledTimestamps_small) simp
  show "mermaid_reads example_processes [''00:00:00'', ''00:00:05'', ''00:00:10'']
     = [(0, 3), (0, 2), (1, 3), (1, 2), (2, 3), (0, 3), (0, 2), (0, 3), (1, 3),
        (1, 2), (1, 3), (2, 3), (2, 3), (0, 3), (1, 3), (0, 3), (1, 3)]"
    by (simp add: mermaid_reads_def s aggregate_reads_def aggregatedRss_def
        example_processes_def upt_conv_Cons)
  show "summary_reads example_processes [''00:00:00'', ''00:00:05'', ''00:00:10'']
     = [(0, 3), (2, 3), (2, 3), (1, 2)]"
    by (simp add: summary_reads_def example_processes_def)
  have l: "label_loop (Suc 0) (Suc 0) 0 [] = Some [0]"
    by (subst label_loop.simps, simp, subst label_loop.simps, simp)
  have c: "nat \<lceil>(1::rat) / 15\<rceil> = 1"
  proof -
    have "\<lceil>(1::rat) / 15\<rceil> = 1" by (rule ceiling_unique) simp_all
    then show ?thesis by simp
  qed
  show "svg_reads example_processes [''00:00:00'']
     = [(0, 3), (0, 2), (0, 1), (0, 3), (1, 3), (2, 3), (0, 6), (0, 6), (0, 2), (1, 2),
        (1, 6), (1, 6), (0, 1)]"
    by (simp add: svg_reads_def aggregate_reads_def aggregatedRss_def example_processes_def
        colors_def c l upt_conv_Cons)
qed

lemma broken_series_read_outside:
  "(1, 1) \<in> set (pipeline_reads broken_series [''00:00:00'', ''00:00:05''])
   \<and> \<not> in_bounds (1, 1)"
proof -
  have s: "sampledTimestamps [''00:00:00'', ''00:00:05''] = [''00:00:00'', ''00:00:05'']"
    by (rule sampledTimestamps_small) simp
  show ?thesis
    by (simp add: pipeline_reads_def mermaid_reads_def s aggregate_reads_def broken_series_def
        in_bounds_def Let_def)
qed

text \<open>
  Claim C8, amended. A log containing only the two header lines and no data lines (with
  or without the final line break) produces zero series and an empty timeline, and the
  rendering completes without throwing: the diagram and the chart are empty and the
  summary reports the neutral state of no data, its monitoring-duration field showing
  the sentinel \<open>N/A\<close>. No array is indexed out of bounds anywhere in the rendering (no
  element is read at all). The rendering does divide by zero: the stride of the diagram
  is computed as \<open>0 / 0\<close>, which is \<open>NaN\<close> and is not used.
\<close>

theorem empty_log_renders:
  assumes "CHR 0x0A \<notin> set h1" and "CHR 0x0A \<notin> set h2"
    and "text = h1 @ [CHR 0x0A] @ h2 @ [CHR 0x0A] \<or> text = h1 @ [CHR 0x0A] @ h2"
  shows "parseLogFile text = ([], [])
     \<and> (\<exists>chart svg summary. run text = Some (Inr (chart, svg, summary))
          \<and> subgraphs chart = [] \<and> processEdges chart = [] \<and> aggregateEdges chart = []
          \<and> classStmts chart = []
          \<and> svg_gridlines svg = [] \<and> svg_yLabels svg = [] \<and> svg_xLabels svg = []
          \<and> svg_polylines svg = [] \<and> svg_aggregatedPoints svg = []
          \<and> s_processCount summary = 0 \<and> s_duration summary = ''N/A''
          \<and> s_details summary = [])
     \<and> list_all in_bounds
          (pipeline_reads (fst (parseLogFile text)) (snd (parseLogFile text)))
     \<and> pipeline_reads (fst (parseLogFile text)) (snd (parseLogFile text)) = []
     \<and> interval (length (snd (parseLogFile text))) = NaN"
proof -
  have p: "parseLogFile text = ([], [])"
    using assms(3) headers_only_parsed [OF assms(1) assms(2)] by auto
  obtain svg where svg: "generateSvg [] [] = Some svg"
    "svg_gridlines svg = []" "svg_yLabels svg = []" "svg_xLabels svg = []"
    "svg_polylines svg = []" "svg_aggregatedPoints svg = []"
    using generateSvg_no_samples by blast
  obtain summary where summary: "composeSummary [] [] = Inr summary"
    "s_processCount summary = 0" "s_duration summary = ''N/A''" "s_details summary = []"
    using composeSummary_no_samples by blast
  have r: "run text = Some (Inr (\<lparr>subgraphs = [], processEdges = [], aggregateEdges = [],
          classDefs = [''process'', ''aggregated''], classStmts = []\<rparr>, svg, summary))"
    by (simp add: run_def p generateMermaidChart_no_samples svg(1) summary(1))
  have i: "interval 0 = NaN" by (simp add: interval_def targetPoints_def)
  show ?thesis
    using p r svg summary i by (simp add: pipeline_reads_no_samples)
qed

text \<open>The log the sampler writes when it never sees a watched process.\<close>

theorem empty_log_renders_witness:
  "parseLogFile header_only_log = ([], [])
   \<and> (\<exists>chart svg summary. run header_only_log = Some (Inr (chart, svg, summary))
         \<and> subgraphs chart = [] \<and> svg_gridlines svg = []
         \<and> s_processCount summary = 0 \<and> s_duration summary = ''N/A'')
   \<and> pipeline_reads (fst (parseLogFile header_only_log)) (snd (parseLogFile header_only_log))
       = []"
proof -
  let ?h1 = "''Starting memory monitor at Mon Nov  2 20:05:00 UTC 2026''"
  let ?h2 = "''Elapsed_Time | PID | Name | Heap_Used_MB | Heap_Capacity_MB | RSS_MB''"
  have a: "CHR 0x0A \<notin> set ?h1" by simp
  have b: "CHR 0x0A \<notin> set ?h2" by simp
  have c: "header_only_log = ?h1 @ [CHR 0x0A] @ ?h2 @ [CHR 0x0A]
           \<or> header_only_log = ?h1 @ [CHR 0x0A] @ ?h2"
    by (simp add: header_only_log_def)
  show ?thesis
    using empty_log_renders [OF a b c] by blast
qed

text \<open>
  Claim C8 as it is stated fails in one point: rendering the header-only log does divide
  by zero. The diagram's target density is the timestamp count 0, and the stride is
  computed as \<open>0 / 0\<close>, which is \<open>NaN\<close>; it is never used, as there is no timestamp to
  filter.
\<close>

theorem empty_log_divides_by_zero:
  "targetPoints (length (snd (parseLogFile header_only_log))) = 0
   \<and> js_div (Fin (of_nat (length (snd (parseLogFile header_only_log)))))
        (Fin (of_nat (targetPoints (length (snd (parseLogFile header_only_log)))))) = NaN
   \<and> interval (length (snd (parseLogFile header_only_log))) = NaN"
proof -
  have a: "CHR 0x0A \<notin> set ''Starting memory monitor at Mon Nov  2 20:05:00 UTC 2026''" by simp
  have b: "CHR 0x0A \<notin> set ''Elapsed_Time | PID | Name | Heap_Used_MB | Heap_Capacity_MB | RSS_MB''"
    by simp
  have "parseLogFile header_only_log = ([], [])"
    using headers_only_parsed(1) [OF a b] by (simp add: header_only_log_def)
  then show ?thesis by (simp add: targetPoints_def interval_def)
qed

subsection \<open>The scale of the vector chart\<close>

lemma foldl_max_fin:
  "list_all is_fin xs \<Longrightarrow>
     foldl js_max2 (Fin a) xs = Fin (Max (insert a (the_fin ` set xs)))"
proof (induction xs arbitrary: a)
  case Nil
  show ?case by simp
next
  case (Cons x xs)
  then obtain v where v: "x = Fin v" by (cases x) auto
  have "foldl js_max2 (Fin (max a v)) xs = Fin (Max (insert (max a v) (the_fin ` set xs)))"
    using Cons by simp
  moreover have "js_max2 (Fin a) (Fin v) = Fin (max a v)" by (simp add: max_def)
  moreover have "Max (insert (max a v) (the_fin ` set xs)) = Max (insert a (insert v (the_fin ` set xs)))"
    by (cases "xs = []") (simp_all add: max.assoc)
  ultimately show ?case using v by simp
qed

lemma Math_max_fin:
  assumes "list_all is_fin xs" and "xs \<noteq> []"
  shows "Math_max xs = Fin (Max (the_fin ` set xs))"
proof -
  obtain y ys where xs: "xs = y # ys" using assms(2) by (cases xs) auto
  obtain v where v: "y = Fin v" using assms(1) xs by (cases y) auto
  have "list_all is_fin ys" using assms(1) xs by simp
  then show ?thesis using xs v by (simp add: Math_max_def foldl_max_fin)
qed

lemma js_sum_fin: "list_all is_fin xs \<Longrightarrow> is_fin (foldl js_add (Fin a) xs)"
proof (induction xs arbitrary: a)
  case Nil
  show ?case by simp
next
  case (Cons x xs)
  then obtain v where v: "x = Fin v" by (cases x) auto
  show ?case using Cons v by simp
qed

lemma spec_contribution_fin:
  assumes "list_all is_fin (rss p)"
  shows "is_fin (spec_contribution t p)"
proof (cases "spec_value_at p t")
  case None
  then show ?thesis by (simp add: spec_contribution_def)
next
  case (Some v)
  then have "(t, v) \<in> set (zip (timestamps p) (rss p))"
    by (simp add: spec_value_at_def map_of_SomeD)
  then have "v \<in> set (rss p)" by (rule set_zip_rightD)
  then show ?thesis using assms Some by (simp add: spec_contribution_def list_all_iff)
qed

lemma aggregateAt_fin:
  assumes "list_all series_ok (map snd procs)" and "finite_values procs"
  shows "is_fin (aggregateAt procs t)"
proof -
  have "list_all is_fin (map (spec_contribution t) (map snd procs))"
    using assms(2) spec_contribution_fin by (auto simp: finite_values_def list_all_iff)
  then show ?thesis
    by (simp only: aggregateAt_contributions [OF assms(1)] js_sum_def js_sum_fin)
qed

lemma aggregatedRss_spec:
  assumes "list_all series_ok (map snd procs)"
  shows "map (spec_aggregate procs) ts = aggregatedRss procs ts"
  by (simp add: aggregatedRss_def spec_aggregate_def aggregateAt_contributions [OF assms])

lemma maxRssOf_peak:
  assumes "list_all series_ok (map snd procs)" and "finite_values procs"
    and "individual_values procs \<noteq> []"
  shows "maxRssOf procs ts = Fin (spec_peak procs ts)"
proof -
  let ?I = "the_fin ` set (individual_values procs)"
  let ?A = "the_fin ` set (aggregatedRss procs ts)"
  have fi: "list_all is_fin (individual_values procs)"
    using assms(2) by (auto simp: finite_values_def individual_values_def list_all_iff)
  have mi: "Math_max (individual_values procs) = Fin (Max ?I)"
    using fi assms(3) by (rule Math_max_fin)
  have fa: "list_all is_fin (aggregatedRss procs ts)"
    using aggregateAt_fin [OF assms(1) assms(2)] by (simp add: aggregatedRss_def list_all_iff)
  have ne: "?I \<noteq> {}" using assms(3) by simp
  show ?thesis
  proof (cases "ts = []")
    case True
    then show ?thesis
      using mi by (simp add: maxRssOf_def spec_peak_def aggregatedRss_spec [OF assms(1)] Math_max_def aggregatedRss_def
          individual_values_def)
  next
    case False
    then have "aggregatedRss procs ts \<noteq> []" by (simp add: aggregatedRss_def)
    then have ma: "Math_max (aggregatedRss procs ts) = Fin (Max ?A)" and na: "?A \<noteq> {}"
      using fa Math_max_fin by simp_all
    have "Max (?I \<union> ?A) = max (Max ?I) (Max ?A)"
      using ne na by (simp add: Max_Un)
    then have p: "spec_peak procs ts = max (Max ?I) (Max ?A)"
      by (simp add: spec_peak_def aggregatedRss_spec [OF assms(1)] image_Un)
    have "Math_max [Fin (Max ?I), Fin (Max ?A)] = Fin (max (Max ?I) (Max ?A))"
      by (simp add: Math_max_def max_def)
    then show ?thesis
      using mi ma p by (simp add: maxRssOf_def individual_values_def)
  qed
qed

lemma yAxisMaxOf_fin: "yAxisMaxOf (Fin m) = Fin (spec_yAxisMax m)"
  by (simp add: yAxisMaxOf_def spec_yAxisMax_def)

lemma grid_step_iff:
  "(500 * of_nat j \<le> (m::rat)) \<longleftrightarrow> j < nat (\<lfloor>m / 500\<rfloor> + 1)"
proof -
  have "(500 * of_nat j \<le> m) \<longleftrightarrow> (of_int (int j) \<le> m / 500)"
    by (simp add: pos_le_divide_eq mult.commute)
  also have "\<dots> \<longleftrightarrow> int j \<le> \<lfloor>m / 500\<rfloor>" by (simp only: le_floor_iff)
  also have "\<dots> \<longleftrightarrow> j < nat (\<lfloor>m / 500\<rfloor> + 1)" by linarith
  finally show ?thesis .
qed

lemma grid_loop_result:
  "grid_loop (Fin m) (500 * of_nat j) acc
   = Some (acc @ map (\<lambda>k. 500 * of_nat k) [j..<nat (\<lfloor>m / 500\<rfloor> + 1)])"
proof (induction "nat (\<lfloor>m / 500\<rfloor> + 1) - j" arbitrary: j acc)
  case 0
  then have "\<not> j < nat (\<lfloor>m / 500\<rfloor> + 1)" by simp
  then have "\<not> 500 * of_nat j \<le> m" using grid_step_iff [of j m] by blast
  then show ?case using 0 by (subst grid_loop.simps) simp
next
  case (Suc d)
  then have lt: "j < nat (\<lfloor>m / 500\<rfloor> + 1)" by simp
  then have le: "500 * of_nat j \<le> m" using grid_step_iff [of j m] by blast
  have d: "d = nat (\<lfloor>m / 500\<rfloor> + 1) - Suc j" using Suc(2) by simp
  have n: "(500::rat) * of_nat j + gridInterval = 500 * of_nat (Suc j)"
    by (simp add: gridInterval_def algebra_simps)
  have "grid_loop (Fin m) (500 * of_nat j) acc
        = grid_loop (Fin m) (500 * of_nat (Suc j)) (acc @ [500 * of_nat j])"
    using le by (subst grid_loop.simps) (simp only: n js_le.simps if_True)
  also have "\<dots> = Some ((acc @ [500 * of_nat j])
                @ map (\<lambda>k. 500 * of_nat k) [Suc j..<nat (\<lfloor>m / 500\<rfloor> + 1)])"
    using Suc(1) [OF d] .
  finally show ?case using lt by (simp add: upt_conv_Cons)
qed

lemma grid_loop_from_zero:
  "grid_loop (Fin m) 0 [] = Some (map (\<lambda>k. 500 * of_nat k) [0..<nat (\<lfloor>m / 500\<rfloor> + 1)])"
  using grid_loop_result [of m 0 "[]"] by simp

lemma label_loop_returns:
  "0 < step \<or> n \<le> i \<Longrightarrow> \<exists>ls. label_loop n step i acc = Some ls"
proof (induction "n - i" arbitrary: i acc rule: less_induct)
  case less
  show ?case
  proof (cases "i < n")
    case False
    then show ?thesis by (subst label_loop.simps) simp
  next
    case True
    then have s: "0 < step" using less.prems by simp
    then have "n - (i + step) < n - i" using True by simp
    then have "\<exists>ls. label_loop n step (i + step) (acc @ [i]) = Some ls"
      using less.hyps s by blast
    then show ?thesis using True by (subst label_loop.simps) simp
  qed
qed

lemma labelInterval_ok:
  "0 < nat \<lceil>(of_nat n :: rat) / 15\<rceil> \<or> n \<le> 0"
proof (cases "n = 0")
  case True
  then show ?thesis by simp
next
  case False
  then have "(0::rat) < of_nat n / 15" by simp
  then have "0 < \<lceil>(of_nat n :: rat) / 15\<rceil>" by (simp add: less_ceiling_iff)
  then show ?thesis by simp
qed

lemma generateSvg_returns:
  assumes "maxRssOf procs ts = Fin m"
  shows "\<exists>svg. generateSvg procs ts = Some svg
     \<and> svg_yAxisMax svg = Fin (spec_yAxisMax m)
     \<and> map fst (svg_gridlines svg)
         = map (\<lambda>k. 500 * of_nat k) [0..<nat (\<lfloor>spec_yAxisMax m / 500\<rfloor> + 1)]"
proof -
  obtain ls where ls: "label_loop (length ts) (nat \<lceil>(of_nat (length ts) :: rat) / 15\<rceil>) 0 [] = Some ls"
    using label_loop_returns [OF labelInterval_ok, of "length ts" "[]"] by blast
  show ?thesis
    using assms ls
    by (simp add: generateSvg_def yAxisMaxOf_fin grid_loop_from_zero Let_def comp_def)
qed

lemma grid_count: "nat (\<lfloor>spec_yAxisMax m / 500\<rfloor> + 1) = nat (2 * \<lceil>m / 1000\<rceil> + 1)"
proof -
  have "spec_yAxisMax m / 500 = of_int (2 * \<lceil>m / 1000\<rceil>)"
    by (simp add: spec_yAxisMax_def)
  then show ?thesis by (simp only: floor_of_int)
qed

lemma generateSvg_positive:
  assumes "maxRssOf procs ts = Fin m" and "0 < m"
  shows "\<exists>svg. generateSvg procs ts = Some svg
     \<and> svg_yAxisMax svg = Fin (spec_yAxisMax m)
     \<and> svg_gridlines svg
         = map (\<lambda>k. (500 * of_nat k,
                      Fin (700 - 500 * of_nat k * (640 / spec_yAxisMax m))))
             [0..<nat (2 * \<lceil>m / 1000\<rceil> + 1)]"
proof -
  obtain ls where ls: "label_loop (length ts) (nat \<lceil>(of_nat (length ts) :: rat) / 15\<rceil>) 0 [] = Some ls"
    using label_loop_returns [OF labelInterval_ok, of "length ts" "[]"] by blast
  have "(0::rat) < m / 1000" using assms(2) by simp
  then have "0 < \<lceil>m / 1000\<rceil>" by (simp add: less_ceiling_iff)
  then have "\<lceil>m / 1000\<rceil> \<noteq> 0" by linarith
  then have y: "spec_yAxisMax m \<noteq> 0" unfolding spec_yAxisMax_def by simp
  have ys: "yScale (Fin (spec_yAxisMax m)) = Fin (640 / spec_yAxisMax m)"
    using y by (simp add: yScale_def height_def margin_top_def margin_bottom_def)
  have yo: "\<And>i. y_of (Fin (640 / spec_yAxisMax m)) (Fin i)
                 = Fin (700 - i * (640 / spec_yAxisMax m))"
    by (simp add: y_of_def js_sub_def height_def margin_bottom_def)
  show ?thesis
    using assms(1) ls
    by (simp add: generateSvg_def yAxisMaxOf_fin grid_loop_from_zero Let_def comp_def ys yo
        grid_count)
qed

text \<open>
  Where the peak is positive the scale is as the specification says, in the exact
  arithmetic of the model (the code rounds each operation to the nearest double): for
  series with as many values as timestamps and finite values, the Y-axis maximum is the
  peak rounded up to the next multiple of 1000, and the gridlines are those of the
  multiples \<open>i\<close> of 500 from 0 up to the maximum, each at the height
  \<open>700 - i * 640 / maximum\<close>.
\<close>

lemma scale_of_positive_peak:
  assumes "list_all series_ok (map snd procs)"
    and "finite_values procs"
    and "individual_values procs \<noteq> []"
    and "0 < spec_peak procs ts"
  shows "\<exists>svg. generateSvg procs ts = Some svg
     \<and> svg_yAxisMax svg = Fin (of_int \<lceil>spec_peak procs ts / 1000\<rceil> * 1000)
     \<and> svg_gridlines svg
         = map (\<lambda>k. (500 * of_nat k,
                      Fin (700 - 500 * of_nat k
                             * (640 / (of_int \<lceil>spec_peak procs ts / 1000\<rceil> * 1000)))))
             [0..<nat (2 * \<lceil>spec_peak procs ts / 1000\<rceil> + 1)]"
  using generateSvg_positive [OF maxRssOf_peak [OF assms(1) assms(2) assms(3)] assms(4)]
  by (simp only: spec_yAxisMax_def)

lemma peak_example_scale:
  "\<exists>svg. generateSvg peak_example [''00:00:00'', ''00:00:05''] = Some svg
     \<and> svg_yAxisMax svg = Fin 3000
     \<and> map fst (svg_gridlines svg) = [0, 500, 1000, 1500, 2000, 2500, 3000]"
proof -
  have ok: "list_all series_ok (map snd peak_example)"
    by (simp add: peak_example_def series_ok_def)
  have fin: "finite_values peak_example"
    by (simp add: peak_example_def finite_values_def)
  have ne: "individual_values peak_example \<noteq> []"
    by (simp add: peak_example_def individual_values_def)
  have p: "spec_peak peak_example [''00:00:00'', ''00:00:05''] = 2300"
    by (simp add: spec_peak_def spec_aggregate_def js_sum_def spec_contribution_def
        spec_value_at_def peak_example_def individual_values_def)
  have c: "\<lceil>(2300::rat) / 1000\<rceil> = 3" by (rule ceiling_unique) simp_all
  have u: "[0..<7] = [0, 1, 2, 3, 4, 5, 6::nat]" by (simp add: upt_conv_Cons)
  have pos: "0 < spec_peak peak_example [''00:00:00'', ''00:00:05'']" by (simp add: p)
  obtain svg where svg: "generateSvg peak_example [''00:00:00'', ''00:00:05''] = Some svg"
    "svg_yAxisMax svg = Fin (of_int 3 * 1000)"
    "svg_gridlines svg
         = map (\<lambda>k. (500 * of_nat k, Fin (700 - 500 * of_nat k * (640 / (of_int 3 * 1000)))))
             [0..<nat (2 * 3 + 1)]"
    using scale_of_positive_peak [OF ok fin ne pos] unfolding p c by blast
  have n: "nat (2 * 3 + 1) = 7" by simp
  show ?thesis using svg(1) svg(2) by (simp add: svg(3) n u)
qed

text \<open>
  Claim C4 says that for every non-empty dataset the gridlines are drawn at every
  multiple of 500 from 0 up to the Y-axis maximum. For a dataset whose values are all
  zero the maximum is 0 and the code divides by it (\<open>yScale = 640 / yAxisMax\<close>, with no
  guard beside the attempted one of \<open>xScale\<close> on the line before): the scale is
  \<open>Infinity\<close> and the one gridline, that of 0, gets the height
  \<open>700 - 0 * Infinity = NaN\<close>, so it is drawn nowhere.
\<close>

theorem zero_peak_gridline_nowhere:
  "parseLogFile zero_log = (zero_example, [''00:00:00'', ''00:00:05''])
   \<and> individual_values zero_example \<noteq> []
   \<and> Math_max (individual_values zero_example @ aggregatedRss zero_example [''00:00:00'', ''00:00:05''])
       = Fin 0
   \<and> (\<exists>svg. generateSvg zero_example [''00:00:00'', ''00:00:05''] = Some svg
         \<and> svg_yAxisMax svg = Fin 0
         \<and> svg_yScale svg = PInf
         \<and> svg_gridlines svg = [(0, NaN)])"
proof -
  have p: "parseLogFile zero_log = (zero_example, [''00:00:00'', ''00:00:05''])"
    by (simp add: zero_log_def zero_example_def parse_eval)
  have i: "individual_values zero_example \<noteq> []"
    by (simp add: zero_example_def individual_values_def)
  have a: "aggregatedRss zero_example [''00:00:00'', ''00:00:05''] = [Fin 0, Fin 0]"
    by (simp add: aggregatedRss_def aggregateAt_def zero_example_def js_index_def to_number_def)
  have m: "Math_max (individual_values zero_example @ aggregatedRss zero_example [''00:00:00'', ''00:00:05''])
       = Fin 0"
    by (simp add: a) (simp add: Math_max_def zero_example_def individual_values_def)
  have y: "yAxisMaxOf (maxRssOf zero_example [''00:00:00'', ''00:00:05'']) = Fin 0"
    by (simp add: maxRssOf_def a yAxisMaxOf_def) (simp add: Math_max_def zero_example_def)
  have g: "grid_loop (Fin 0) 0 [] = Some [0]"
    using grid_loop_from_zero [of 0] by (simp add: upt_conv_Cons)
  have c: "nat \<lceil>(2::rat) / 15\<rceil> = Suc 0"
  proof -
    have "\<lceil>(2::rat) / 15\<rceil> = 1" by (rule ceiling_unique) simp_all
    then show ?thesis by simp
  qed
  have l: "label_loop (Suc (Suc 0)) (Suc 0) 0 [] = Some [0, Suc 0]"
    by (subst label_loop.simps, simp, subst label_loop.simps, simp, subst label_loop.simps, simp)
  have s: "yScale (Fin 0) = PInf"
    by (simp add: yScale_def height_def margin_top_def margin_bottom_def)
  have n: "y_of PInf (Fin 0) = NaN"
    by (simp add: y_of_def js_sub_def)
  show ?thesis
    using p i m by (simp add: generateSvg_def y g c l s n Let_def)
qed

text \<open>
  A value that is no number has a like effect. The last line of this log was cut after
  its fifth pipe: it still splits into six fields, its value is \<open>NaN\<close>, and with it the
  Y-axis maximum, so that no gridline is drawn at all.
\<close>

lemma cut_line_no_gridline:
  "fst (parseLogFile cut_log)
     = [(''101-DaemonA'', \<lparr>timestamps = [''00:00:00'', ''00:00:05''], rss = [Fin 100, NaN]\<rparr>)]
   \<and> (\<exists>svg. generateSvg (fst (parseLogFile cut_log)) (snd (parseLogFile cut_log)) = Some svg
         \<and> svg_yAxisMax svg = NaN \<and> svg_gridlines svg = [])"
proof -
  have p: "parseLogFile cut_log
     = ([(''101-DaemonA'', \<lparr>timestamps = [''00:00:00'', ''00:00:05''], rss = [Fin 100, NaN]\<rparr>)],
        [''00:00:00'', ''00:00:05''])"
    by (simp add: cut_log_def parse_eval)
  have y: "yAxisMaxOf (maxRssOf [(''101-DaemonA'',
             \<lparr>timestamps = [''00:00:00'', ''00:00:05''], rss = [Fin 100, NaN]\<rparr>)]
             [''00:00:00'', ''00:00:05'']) = NaN"
    by (simp add: maxRssOf_def yAxisMaxOf_def Math_max_def aggregatedRss_def aggregateAt_def
        js_index_def to_number_def)
  have g: "grid_loop NaN 0 [] = Some []" by (subst grid_loop.simps) simp
  have c: "nat \<lceil>(2::rat) / 15\<rceil> = Suc 0"
  proof -
    have "\<lceil>(2::rat) / 15\<rceil> = 1" by (rule ceiling_unique) simp_all
    then show ?thesis by simp
  qed
  have l: "label_loop (Suc (Suc 0)) (Suc 0) 0 [] = Some [0, Suc 0]"
    by (subst label_loop.simps, simp, subst label_loop.simps, simp, subst label_loop.simps, simp)
  show ?thesis
    by (simp add: p generateSvg_def y g c l Let_def)
qed

subsection \<open>The array reads of a parsed log\<close>

lemma aggregate_reads_ok:
  assumes "list_all series_ok (map snd procs)"
  shows "list_all in_bounds (aggregate_reads procs t)"
proof -
  have "in_bounds (indexOf (timestamps p) t, length (rss p))"
    if "p \<in> set (map snd procs)" and "t \<in> set (timestamps p)" for p
  proof -
    have "length (timestamps p) = length (rss p)"
      using assms that(1) by (auto simp: list_all_iff series_ok_def)
    then show ?thesis using indexOf_in [OF that(2)] by (simp add: in_bounds_def)
  qed
  then show ?thesis by (auto simp: aggregate_reads_def list_all_iff)
qed

lemma mermaid_reads_ok:
  assumes "list_all series_ok (map snd procs)"
  shows "list_all in_bounds (mermaid_reads procs ts)"
proof -
  let ?s = "sampledTimestamps ts"
  have a: "list_all in_bounds (concat (map (aggregate_reads procs) ?s))"
    using aggregate_reads_ok [OF assms] by (auto simp: list_all_iff)
  have node: "in_bounds (indexOf (timestamps (snd e)) t, length (rss (snd e)))"
    if "e \<in> set procs" and "indexOf (timestamps (snd e)) t \<noteq> - 1" for e t
  proof -
    have m: "t \<in> set (timestamps (snd e))" using that(2) indexOf_eq_minus1 by metis
    have "length (timestamps (snd e)) = length (rss (snd e))"
      using assms that(1) by (auto simp: list_all_iff series_ok_def)
    then show ?thesis using indexOf_in [OF m] by (simp add: in_bounds_def)
  qed
  have b: "list_all in_bounds
     (concat (map (\<lambda>(timestamp, i).
               concat (map (\<lambda>e. let idx = indexOf (timestamps (snd e)) timestamp
                                in if idx = - 1 then [] else [(idx, length (rss (snd e)))])
                         procs)
               @ [(int i, length (aggregatedRss procs ?s))])
             (zip ?s [0..<length ?s])))"
    using node by (auto simp: list_all_iff Let_def in_bounds_def aggregatedRss_def
        dest: set_zip_rightD split: if_splits)
  have c: "list_all in_bounds
     (concat (map (\<lambda>e. concat (map (\<lambda>i. if i = 0 then []
                                                else [(int i - 1, length ?s)])
                                      [0..<length ?s]))
                     procs))"
    by (auto simp: list_all_iff in_bounds_def split: if_splits)
  show ?thesis using a b c by (simp add: mermaid_reads_def Let_def)
qed

lemma label_loop_below:
  "0 < step \<or> n \<le> i \<Longrightarrow> \<forall>x\<in>set acc. x < n \<Longrightarrow>
     \<exists>ls. label_loop n step i acc = Some ls \<and> (\<forall>x\<in>set ls. x < n)"
proof (induction "n - i" arbitrary: i acc rule: less_induct)
  case less
  show ?case
  proof (cases "i < n")
    case False
    then show ?thesis using less.prems(2) by (subst label_loop.simps) simp
  next
    case True
    then have s: "0 < step" using less.prems by simp
    then have d: "n - (i + step) < n - i" using True by simp
    have "\<forall>x\<in>set (acc @ [i]). x < n" using True less.prems(2) by simp
    then have "\<exists>ls. label_loop n step (i + step) (acc @ [i]) = Some ls \<and> (\<forall>x\<in>set ls. x < n)"
      using less.hyps [OF d] s by blast
    then show ?thesis using True by (subst label_loop.simps) simp
  qed
qed

lemma svg_reads_ok:
  assumes "list_all series_ok (map snd procs)"
  shows "list_all in_bounds (svg_reads procs ts)"
proof -
  obtain ls where ls: "label_loop (length ts) (nat \<lceil>(of_nat (length ts) :: rat) / 15\<rceil>) 0 [] = Some ls"
    and below: "\<forall>x\<in>set ls. x < length ts"
    using label_loop_below [OF labelInterval_ok, of "[]" "length ts"] by auto
  have a: "list_all in_bounds (concat (map (aggregate_reads procs) ts))"
    using aggregate_reads_ok [OF assms] by (auto simp: list_all_iff)
  have b: "list_all in_bounds (map (\<lambda>i. (int i, length ts)) ls)"
    using below by (auto simp: list_all_iff in_bounds_def)
  have line: "list_all in_bounds
      (map (\<lambda>i. (int i, length (rss (snd e)))) [0..<length (timestamps (snd e))])"
    if "e \<in> set procs" for e
  proof -
    have "length (timestamps (snd e)) = length (rss (snd e))"
      using assms that by (auto simp: list_all_iff series_ok_def)
    then show ?thesis by (auto simp: list_all_iff in_bounds_def)
  qed
  have c: "list_all in_bounds
     (concat (map (\<lambda>(e, idx).
               map (\<lambda>i. (int i, length (rss (snd e)))) [0..<length (timestamps (snd e))]
               @ [(int (idx mod length colors), length colors),
                  (int (idx mod length colors), length colors)])
             (zip procs [0..<length procs])))"
  proof -
    have "list_all in_bounds
            (map (\<lambda>i. (int i, length (rss (snd e)))) [0..<length (timestamps (snd e))]
             @ [(int (idx mod length colors), length colors),
                (int (idx mod length colors), length colors)])"
      if "(e, idx) \<in> set (zip procs [0..<length procs])" for e idx
    proof -
      have "e \<in> set procs" using that by (rule set_zip_leftD)
      then show ?thesis using line [of e] by (simp add: in_bounds_def colors_def)
    qed
    then show ?thesis by (auto simp: list_all_iff)
  qed
  have d: "list_all in_bounds (map (\<lambda>i. (int i, length (aggregatedRss procs ts))) [0..<length ts])"
    by (auto simp: list_all_iff in_bounds_def aggregatedRss_def)
  show ?thesis using a b c d by (simp add: svg_reads_def ls)
qed

lemma summary_reads_ok:
  assumes "list_all series_nonempty (map snd procs)"
  shows "list_all in_bounds (summary_reads procs ts)"
  using assms by (auto simp: summary_reads_def list_all_iff in_bounds_def series_nonempty_def)

lemma all_lookup:
  assumes "distinct (map fst m)"
  shows "list_all P (map snd m) \<longleftrightarrow> (\<forall>k d. map_of m k = Some d \<longrightarrow> P d)"
proof
  assume a: "list_all P (map snd m)"
  show "\<forall>k d. map_of m k = Some d \<longrightarrow> P d"
  proof (intro allI impI)
    fix k d assume "map_of m k = Some d"
    then have "(k, d) \<in> set m" by (rule map_of_SomeD)
    then show "P d" using a by (auto simp: list_all_iff)
  qed
next
  assume b: "\<forall>k d. map_of m k = Some d \<longrightarrow> P d"
  show "list_all P (map snd m)"
  proof (clarsimp simp: list_all_iff)
    fix k d assume "(k, d) \<in> set m"
    then have "map_of m k = Some d" using assms by simp
    then show "P d" using b by blast
  qed
qed

lemma parse_line_nonempty:
  assumes "distinct (map fst (fst st))" and "list_all series_nonempty (map snd (fst st))"
  shows "list_all series_nonempty (map snd (fst (parse_line st line)))"
proof (cases "six_fields line")
  case False
  then show ?thesis using assms by (simp add: parse_line_discards)
next
  case True
  obtain t key v where s: "sample_of line = (t, key, v)" by (cases "sample_of line") auto
  have d': "distinct (map fst (fst (parse_line st line)))"
    using assms(1) by (rule parse_line_distinct)
  have old: "\<forall>k d. map_of (fst st) k = Some d \<longrightarrow> series_nonempty d"
    using assms all_lookup [OF assms(1), of series_nonempty] by simp
  have "\<forall>k d. map_of (fst (parse_line st line)) k = Some d \<longrightarrow> series_nonempty d"
  proof (intro allI impI)
    fix k d assume m: "map_of (fst (parse_line st line)) k = Some d"
    show "series_nonempty d"
    proof (cases "k = key")
      case True
      then show ?thesis
        using m parse_line_captures [OF \<open>six_fields line\<close> s, of st]
        by (auto simp: series_nonempty_def)
    next
      case False
      then show ?thesis using m old parse_line_other [OF \<open>six_fields line\<close> s, of k st] by simp
    qed
  qed
  then show ?thesis using all_lookup [OF d', of series_nonempty] by simp
qed

lemma foldl_parse_line_nonempty:
  "distinct (map fst (fst st)) \<Longrightarrow> list_all series_nonempty (map snd (fst st)) \<Longrightarrow>
     list_all series_nonempty (map snd (fst (foldl parse_line st ls)))"
  by (induction ls arbitrary: st) (simp_all add: parse_line_nonempty parse_line_distinct)

lemma parsed_series_nonempty:
  "list_all series_nonempty (map snd (fst (parseLogFile text)))"
  using foldl_parse_line_nonempty [of "([], [])" "drop 2 (js_split CHR 0x0A text)"]
  by (simp add: parseLogFile_def parse_lines_def Let_def)

text \<open>
  On the series and the timeline of any log, no renderer reads an array out of bounds.
\<close>

lemma parsed_reads_in_bounds:
  "list_all in_bounds (pipeline_reads (fst (parseLogFile text)) ts)"
  using mermaid_reads_ok [OF parsed_series_ok] svg_reads_ok [OF parsed_series_ok]
    summary_reads_ok [OF parsed_series_nonempty]
  by (simp add: pipeline_reads_def)

end
